theory Spec2Isabelle
  imports Main "HOL-Library.Word" "HOL-Library.Signed_Division"
begin

unbundle bit_operations_syntax

section \<open>Data model of edit.c\<close>

text \<open>
  A C \<open>char\<close> is a byte. The C \<open>int\<close>s of the editor (sizes, cursor coordinates, key
  codes) are modelled as unbounded \<open>int\<close>: no property below depends on a row or a
  document of \<open>2^31\<close> bytes or more. C's \<open>%\<close> truncates towards zero and is written
  \<open>smod\<close>.

  A heap buffer is the list of its bytes; an access outside the list is a memory fault
  and is the value \<open>None\<close>. A \<open>chars\<close> buffer of a row holds \<open>size + 1\<close> bytes, the
  last one the terminating NUL. The \<open>render\<close> buffer is modelled by the bytes that
  \<open>editorUpdateRow\<close> has written (the content and the terminating NUL); the writes are
  checked against the size of the allocation.
\<close>

type_synonym byte = "8 word"

definition EDIT_TAB_STOP :: int where
  "EDIT_TAB_STOP = 8"

definition CTRL_KEY :: "int \<Rightarrow> int" where
  "CTRL_KEY k = k AND 0x1f"

definition ARROW_LEFT :: int where "ARROW_LEFT = 1000"
definition ARROW_RIGHT :: int where "ARROW_RIGHT = 1001"
definition ARROW_UP :: int where "ARROW_UP = 1002"
definition ARROW_DOWN :: int where "ARROW_DOWN = 1003"
definition DEL_KEY :: int where "DEL_KEY = 1004"
definition HOME_KEY :: int where "HOME_KEY = 1005"
definition END_KEY :: int where "END_KEY = 1006"
definition PAGE_UP :: int where "PAGE_UP = 1007"
definition PAGE_DOWN :: int where "PAGE_DOWN = 1008"

text \<open>\<open>struct erow\<close>; the field \<open>size\<close> is \<open>size_row\<close> here.\<close>

record erow =
  size_row :: int
  rsize :: int
  chars :: "byte list"
  render :: "byte list"

text \<open>
  \<open>struct editorConfig\<close>, without the file name, the status message and the saved
  terminal attributes, which no operation below reads.
\<close>

record editorConfig =
  cx :: int
  cy :: int
  rx :: int
  rowoff :: int
  coloff :: int
  screenrows :: int
  screencols :: int
  numrows :: int
  row :: "erow list"

subsection \<open>Memory accesses\<close>

text \<open>\<open>buf[i]\<close> read and written, and the content of freshly allocated memory.\<close>

definition rd :: "'a list \<Rightarrow> int \<Rightarrow> 'a option" where
  "rd buf i = (if 0 \<le> i \<and> i < int (length buf) then Some (buf ! nat i) else None)"

definition wr :: "'a list \<Rightarrow> int \<Rightarrow> 'a \<Rightarrow> 'a list option" where
  "wr buf i v = (if 0 \<le> i \<and> i < int (length buf) then Some (buf[nat i := v]) else None)"

definition uninit :: byte where
  "uninit = 0xAA"

text \<open>
  \<open>realloc(buf, n)\<close>: the first \<open>min (length buf) n\<close> bytes are kept, the rest of the
  new block is indeterminate.
\<close>

definition realloc :: "'a \<Rightarrow> 'a list \<Rightarrow> int \<Rightarrow> 'a list option" where
  "realloc fresh buf n =
     (if n < 0 then None
      else Some (take (nat n) buf @ replicate (nat n - length buf) fresh))"

text \<open>\<open>memmove(&buf[dst], &buf[src], n)\<close> inside one buffer.\<close>

definition memmove :: "byte list \<Rightarrow> int \<Rightarrow> int \<Rightarrow> int \<Rightarrow> byte list option" where
  "memmove buf dst src n =
     (if 0 \<le> dst \<and> 0 \<le> src \<and> 0 \<le> n
         \<and> dst + n \<le> int (length buf) \<and> src + n \<le> int (length buf)
      then Some (take (nat dst) buf @ take (nat n) (drop (nat src) buf)
                 @ drop (nat (dst + n)) buf)
      else None)"

section \<open>Row operations\<close>

subsection \<open>editorRowCxToRx\<close>

text \<open>The body of the loop: \<open>if (c == '\t') rx += (EDIT_TAB_STOP - 1) - (rx % EDIT_TAB_STOP); rx++;\<close>\<close>

definition rx_step :: "byte \<Rightarrow> int \<Rightarrow> int" where
  "rx_step c x =
     (if c = 9 then x + ((EDIT_TAB_STOP - 1) - (x smod EDIT_TAB_STOP)) else x) + 1"

function cx_to_rx_loop :: "erow \<Rightarrow> int \<Rightarrow> int \<Rightarrow> int \<Rightarrow> int option" where
  "cx_to_rx_loop r c j x =
     (if j < c then
        (case rd (chars r) j of
           None \<Rightarrow> None
         | Some ch \<Rightarrow> cx_to_rx_loop r c (j + 1) (rx_step ch x))
      else Some x)"
  by pat_completeness auto
termination
  by (relation "measure (\<lambda>(r, c, j, x). nat (c - j))") auto

definition editorRowCxToRx :: "erow \<Rightarrow> int \<Rightarrow> int option" where
  "editorRowCxToRx r c = cx_to_rx_loop r c 0 0"

subsection \<open>editorUpdateRow\<close>

text \<open>The first loop counts the tabs of the row, for the size of the allocation.\<close>

function count_tabs :: "erow \<Rightarrow> int \<Rightarrow> int \<Rightarrow> int option" where
  "count_tabs r j tabs =
     (if j < size_row r then
        (case rd (chars r) j of
           None \<Rightarrow> None
         | Some ch \<Rightarrow> count_tabs r (j + 1) (if ch = 9 then tabs + 1 else tabs))
      else Some tabs)"
  by pat_completeness auto
termination
  by (relation "measure (\<lambda>(r, j, tabs). nat (size_row r - j))") auto

text \<open>
  \<open>render[idx++] = b\<close> into an allocation of \<open>cap\<close> bytes: \<open>out\<close> is what has been
  written so far, and \<open>idx\<close> is its length.
\<close>

definition put :: "int \<Rightarrow> byte list \<Rightarrow> byte \<Rightarrow> byte list option" where
  "put cap out b = (if int (length out) < cap then Some (out @ [b]) else None)"

text \<open>\<open>while (idx % EDIT_TAB_STOP != 0) render[idx++] = ' ';\<close>\<close>

function pad_loop :: "int \<Rightarrow> byte list \<Rightarrow> byte list option" where
  "pad_loop cap out =
     (if int (length out) smod EDIT_TAB_STOP \<noteq> 0 then
        (case put cap out 32 of
           None \<Rightarrow> None
         | Some out' \<Rightarrow> pad_loop cap out')
      else Some out)"
  by pat_completeness auto
termination
  by (relation "measure (\<lambda>(cap, out). nat (cap - int (length out)))")
     (auto simp: put_def split: if_splits)

function render_loop :: "erow \<Rightarrow> int \<Rightarrow> int \<Rightarrow> byte list \<Rightarrow> byte list option" where
  "render_loop r cap j out =
     (if j < size_row r then
        (case rd (chars r) j of
           None \<Rightarrow> None
         | Some ch \<Rightarrow>
             if ch = 9 then
               (case put cap out 32 of
                  None \<Rightarrow> None
                | Some out1 \<Rightarrow>
                    (case pad_loop cap out1 of
                       None \<Rightarrow> None
                     | Some out2 \<Rightarrow> render_loop r cap (j + 1) out2))
             else
               (case put cap out ch of
                  None \<Rightarrow> None
                | Some out1 \<Rightarrow> render_loop r cap (j + 1) out1))
      else Some out)"
  by pat_completeness auto
termination
  by (relation "measure (\<lambda>(r, cap, j, out). nat (size_row r - j))") auto

definition editorUpdateRow :: "erow \<Rightarrow> erow option" where
  "editorUpdateRow r =
     (case count_tabs r 0 0 of
        None \<Rightarrow> None
      | Some tabs \<Rightarrow>
          (let cap = size_row r + tabs * (EDIT_TAB_STOP - 1) + 1 in
           case render_loop r cap 0 [] of
             None \<Rightarrow> None
           | Some out \<Rightarrow>
               (case put cap out 0 of
                  None \<Rightarrow> None
                | Some buf \<Rightarrow> Some (r\<lparr>render := buf, rsize := int (length out)\<rparr>))))"

subsection \<open>editorRowInsertChar\<close>

text \<open>The \<open>int c\<close> is stored into a \<open>char\<close>: its low eight bits.\<close>

definition editorRowInsertChar :: "erow \<Rightarrow> int \<Rightarrow> int \<Rightarrow> erow option" where
  "editorRowInsertChar r at0 c =
     (let at = (if at0 < 0 \<or> at0 > size_row r then size_row r else at0) in
      case realloc uninit (chars r) (size_row r + 2) of
        None \<Rightarrow> None
      | Some b1 \<Rightarrow>
          (case memmove b1 (at + 1) at (size_row r - at + 1) of
             None \<Rightarrow> None
           | Some b2 \<Rightarrow>
               (case wr b2 at (word_of_int c) of
                  None \<Rightarrow> None
                | Some b3 \<Rightarrow>
                    editorUpdateRow (r\<lparr>chars := b3, size_row := size_row r + 1\<rparr>))))"

section \<open>Editor operations\<close>

subsection \<open>editorAppendRow\<close>

definition uninit_row :: erow where
  "uninit_row = \<lparr>size_row = 0, rsize = 0, chars = [], render = []\<rparr>"

text \<open>
  \<open>s\<close> is the buffer the argument points to, \<open>len\<close> the number of bytes to copy from
  it: \<open>memcpy\<close> reads \<open>s[0..len)\<close>.
\<close>

definition editorAppendRow :: "byte list \<Rightarrow> int \<Rightarrow> editorConfig \<Rightarrow> editorConfig option" where
  "editorAppendRow s len E =
     (case realloc uninit_row (row E) (numrows E + 1) of
        None \<Rightarrow> None
      | Some rows \<Rightarrow>
          (let at = numrows E in
           if len < 0 \<or> int (length s) < len then None
           else
             (let r0 = \<lparr>size_row = len, rsize = 0,
                        chars = take (nat len) s @ [0], render = []\<rparr> in
              case editorUpdateRow r0 of
                None \<Rightarrow> None
              | Some r1 \<Rightarrow>
                  (case wr rows at r1 of
                     None \<Rightarrow> None
                   | Some rows' \<Rightarrow> Some (E\<lparr>row := rows', numrows := numrows E + 1\<rparr>)))))"

subsection \<open>editorInsertChar\<close>

text \<open>The string literal \<open>""\<close> is a buffer of one NUL byte.\<close>

definition editorInsertChar :: "int \<Rightarrow> editorConfig \<Rightarrow> editorConfig option" where
  "editorInsertChar c E =
     (case (if cy E = numrows E then editorAppendRow [0] 0 E else Some E) of
        None \<Rightarrow> None
      | Some E1 \<Rightarrow>
          (case rd (row E1) (cy E1) of
             None \<Rightarrow> None
           | Some r \<Rightarrow>
               (case editorRowInsertChar r (cx E1) c of
                  None \<Rightarrow> None
                | Some r' \<Rightarrow>
                    (case wr (row E1) (cy E1) r' of
                       None \<Rightarrow> None
                     | Some rows' \<Rightarrow> Some (E1\<lparr>row := rows', cx := cx E1 + 1\<rparr>)))))"

section \<open>Output: editorScroll\<close>

text \<open>
  The first statements set \<open>E.rx\<close>. The call \<open>editorRowCxToRx(&E.row[E.cy], E.cx)\<close>
  passes a pointer to the row, and the function reads through it only in the body of
  its loop, which runs when \<open>0 < cx\<close>: for \<open>cx \<le> 0\<close> no row is read and the result is
  0, whatever \<open>cy\<close> is. The four \<open>if\<close> statements that follow, which move \<open>rowoff\<close>
  and \<open>coloff\<close>, are \<open>scroll_offsets\<close>.
\<close>

definition scroll_offsets :: "editorConfig \<Rightarrow> editorConfig" where
  "scroll_offsets E1 =
     (let E2 = (if cy E1 < rowoff E1 then E1\<lparr>rowoff := cy E1\<rparr> else E1);
          E3 = (if cy E2 \<ge> rowoff E2 + screenrows E2
                then E2\<lparr>rowoff := cy E2 - screenrows E2 + 1\<rparr> else E2);
          E4 = (if rx E3 < coloff E3 then E3\<lparr>coloff := rx E3\<rparr> else E3);
          E5 = (if rx E4 \<ge> coloff E4 + screencols E4
                then E4\<lparr>coloff := rx E4 - screencols E4 + 1\<rparr> else E4)
      in E5)"

definition editorScroll :: "editorConfig \<Rightarrow> editorConfig option" where
  "editorScroll E =
     (case (if cy E < numrows E then
              (if 0 < cx E then
                 (case rd (row E) (cy E) of
                    None \<Rightarrow> None
                  | Some r \<Rightarrow> editorRowCxToRx r (cx E))
               else Some 0)
            else Some 0) of
        None \<Rightarrow> None
      | Some x \<Rightarrow> Some (scroll_offsets (E\<lparr>rx := x\<rparr>)))"

section \<open>Input\<close>

subsection \<open>editorMoveCursor\<close>

text \<open>
  The local \<open>row\<close> pointer is \<open>NULL\<close> or \<open>&E.row[E.cy]\<close>; it is modelled by the test
  \<open>cy < numrows\<close> and dereferenced with \<open>rd\<close>. The function is the \<open>switch\<close> on the
  key, \<open>move_switch\<close>, followed by the lines that bring \<open>cx\<close> back into the row the
  cursor is on now, \<open>clamp_cx\<close>.
\<close>

definition move_switch :: "int \<Rightarrow> editorConfig \<Rightarrow> editorConfig option" where
  "move_switch key E =
     (let has_row = \<not> (cy E \<ge> numrows E) in
      if key = ARROW_LEFT then
        (if cx E \<noteq> 0 then Some (E\<lparr>cx := cx E - 1\<rparr>)
         else if cy E > 0 then
           (case rd (row E) (cy E - 1) of
              None \<Rightarrow> None
            | Some r \<Rightarrow> Some (E\<lparr>cy := cy E - 1, cx := size_row r\<rparr>))
         else Some E)
      else if key = ARROW_RIGHT then
        (if has_row then
           (case rd (row E) (cy E) of
              None \<Rightarrow> None
            | Some r \<Rightarrow>
                if cx E < size_row r then Some (E\<lparr>cx := cx E + 1\<rparr>)
                else if cx E = size_row r then Some (E\<lparr>cy := cy E + 1, cx := 0\<rparr>)
                else Some E)
         else Some E)
      else if key = ARROW_UP then
        (if cy E \<noteq> 0 then Some (E\<lparr>cy := cy E - 1\<rparr>) else Some E)
      else if key = ARROW_DOWN then
        (if cx E < numrows E then Some (E\<lparr>cy := cy E + 1\<rparr>) else Some E)
      else Some E)"

definition clamp_cx :: "editorConfig \<Rightarrow> editorConfig option" where
  "clamp_cx E =
     (case (if cy E \<ge> numrows E then Some 0
            else (case rd (row E) (cy E) of
                    None \<Rightarrow> None
                  | Some r \<Rightarrow> Some (size_row r))) of
        None \<Rightarrow> None
      | Some rowlen \<Rightarrow> Some (if cx E > rowlen then E\<lparr>cx := rowlen\<rparr> else E))"

definition editorMoveCursor :: "int \<Rightarrow> editorConfig \<Rightarrow> editorConfig option" where
  "editorMoveCursor key E =
     (case move_switch key E of
        None \<Rightarrow> None
      | Some E1 \<Rightarrow> clamp_cx E1)"

subsection \<open>editorProcessKeypress\<close>

text \<open>
  What one keypress does to the editor: the process exits with a status, or runs into a
  memory fault, or goes on in a new state.
\<close>

datatype outcome = Exit int | Fault | Continue editorConfig

definition continue :: "editorConfig option \<Rightarrow> outcome" where
  "continue r = (case r of None \<Rightarrow> Fault | Some E \<Rightarrow> Continue E)"

text \<open>
  \<open>int times = E.screenrows; while (times--) editorMoveCursor(...)\<close>. A negative
  \<open>times\<close> is decremented until the \<open>int\<close> overflows, which is undefined behaviour.
\<close>

function page_loop :: "int \<Rightarrow> int \<Rightarrow> editorConfig \<Rightarrow> editorConfig option" where
  "page_loop ntimes key E =
     (if ntimes = 0 then Some E
      else if ntimes < 0 then None
      else (case editorMoveCursor key E of
              None \<Rightarrow> None
            | Some E' \<Rightarrow> page_loop (ntimes - 1) key E'))"
  by pat_completeness auto
termination
  by (relation "measure (\<lambda>(ntimes, key, E). nat ntimes)") auto

text \<open>The \<open>switch\<close> of \<open>editorProcessKeypress\<close> on the key \<open>c\<close> that \<open>editorReadKey\<close> returned.\<close>

definition process_key :: "int \<Rightarrow> editorConfig \<Rightarrow> outcome" where
  "process_key c E =
     (if c = CTRL_KEY 113 then Exit 0
      else if c = HOME_KEY then Continue (E\<lparr>cx := 0\<rparr>)
      else if c = END_KEY then
        (if cy E < numrows E then
           (case rd (row E) (cy E) of
              None \<Rightarrow> Fault
            | Some r \<Rightarrow> Continue (E\<lparr>cx := size_row r\<rparr>))
         else Continue E)
      else if c = PAGE_DOWN \<or> c = PAGE_UP then
        (let E1 = (if c = PAGE_UP then E\<lparr>cy := rowoff E\<rparr>
                   else if c = PAGE_DOWN then
                     (let E0 = E\<lparr>cy := rowoff E + screenrows E - 1\<rparr>
                      in if cy E0 > numrows E0 then E0\<lparr>cy := numrows E0\<rparr> else E0)
                   else E)
         in continue (page_loop (screenrows E1)
                        (if c = PAGE_UP then ARROW_UP else ARROW_DOWN) E1))
      else if c = ARROW_UP \<or> c = ARROW_DOWN \<or> c = ARROW_LEFT \<or> c = ARROW_RIGHT then
        continue (editorMoveCursor c E)
      else continue (editorInsertChar c E))"

subsection \<open>editorReadKey\<close>

text \<open>
  The input is the sequence of results of the successive \<open>read(STDIN_FILENO, &c, 1)\<close>
  calls: one byte, nothing within the timeout (\<open>read\<close> returns 0), or an error
  (\<open>read\<close> returns -1; the flag tells whether \<open>errno\<close> is \<open>EAGAIN\<close>). After the end of
  the list no byte arrives any more: every later \<open>read\<close> times out.
\<close>

datatype read_result = Byte byte | NoData | Error bool

text \<open>One call of \<open>read\<close>: the byte when the call returned 1, and the rest of the input.\<close>

fun read1 :: "read_result list \<Rightarrow> byte option \<times> read_result list" where
  "read1 [] = (None, [])"
| "read1 (Byte b # inp) = (Some b, inp)"
| "read1 (NoData # inp) = (None, inp)"
| "read1 (Error e # inp) = (None, inp)"

text \<open>
  The result of \<open>editorReadKey\<close>: a key and the input left, or the process died in
  \<open>die("read")\<close>, or the first loop waits for ever.
\<close>

datatype key_result = Key int "read_result list" | Die | Blocked

text \<open>The escape sequence after the byte \<open>0x1b\<close>. A \<open>char\<close> is compared as a signed value.\<close>

definition read_escape :: "read_result list \<Rightarrow> key_result" where
  "read_escape inp =
     (case read1 inp of
        (None, inp1) \<Rightarrow> Key 0x1b inp1
      | (Some s0, inp1) \<Rightarrow>
          (case read1 inp1 of
             (None, inp2) \<Rightarrow> Key 0x1b inp2
           | (Some s1, inp2) \<Rightarrow>
               if s0 = 0x5b then
                 (if sint s1 \<ge> 0x30 \<and> sint s1 \<le> 0x39 then
                    (case read1 inp2 of
                       (None, inp3) \<Rightarrow> Key 0x1b inp3
                     | (Some s2, inp3) \<Rightarrow>
                         if s2 = 0x7e then
                           (if s1 = 0x31 then Key HOME_KEY inp3
                            else if s1 = 0x33 then Key DEL_KEY inp3
                            else if s1 = 0x34 then Key END_KEY inp3
                            else if s1 = 0x35 then Key PAGE_UP inp3
                            else if s1 = 0x36 then Key PAGE_DOWN inp3
                            else if s1 = 0x37 then Key HOME_KEY inp3
                            else if s1 = 0x38 then Key END_KEY inp3
                            else Key 0x1b inp3)
                         else Key 0x1b inp3)
                  else
                    (if s1 = 0x41 then Key ARROW_UP inp2
                     else if s1 = 0x42 then Key ARROW_DOWN inp2
                     else if s1 = 0x43 then Key ARROW_RIGHT inp2
                     else if s1 = 0x44 then Key ARROW_LEFT inp2
                     else if s1 = 0x48 then Key HOME_KEY inp2
                     else if s1 = 0x46 then Key END_KEY inp2
                     else Key 0x1b inp2))
               else if s0 = 0x4f then
                 (if s1 = 0x48 then Key HOME_KEY inp2
                  else if s1 = 0x46 then Key END_KEY inp2
                  else Key 0x1b inp2)
               else Key 0x1b inp2))"

text \<open>
  The first loop reads until a byte arrives and dies on an error other than \<open>EAGAIN\<close>.
  A plain byte is returned as the \<open>int\<close> value of the (signed) \<open>char\<close>.
\<close>

fun editorReadKey :: "read_result list \<Rightarrow> key_result" where
  "editorReadKey [] = Blocked"
| "editorReadKey (NoData # inp) = editorReadKey inp"
| "editorReadKey (Error eagain # inp) = (if \<not> eagain then Die else editorReadKey inp)"
| "editorReadKey (Byte c # inp) = (if c = 0x1b then read_escape inp else Key (sint c) inp)"

section \<open>Initialisation and the main loop\<close>

text \<open>
  \<open>initEditor\<close>, given the window size that \<open>getWindowSize\<close> found; the two lines of the
  status bar and the message bar are taken off.
\<close>

definition initEditor :: "int \<Rightarrow> int \<Rightarrow> editorConfig" where
  "initEditor rows cols =
     \<lparr>cx = 0, cy = 0, rx = 0, rowoff = 0, coloff = 0,
      screenrows = rows - 2, screencols = cols, numrows = 0, row = []\<rparr>"

text \<open>
  One turn of the loop of \<open>main\<close> for a decoded key: \<open>editorRefreshScreen\<close> changes the
  state through \<open>editorScroll\<close> only, then the key is processed.
\<close>

definition main_step :: "int \<Rightarrow> editorConfig \<Rightarrow> outcome" where
  "main_step c E =
     (case editorScroll E of
        None \<Rightarrow> Fault
      | Some E' \<Rightarrow> process_key c E')"

fun run_keys :: "int list \<Rightarrow> editorConfig \<Rightarrow> outcome" where
  "run_keys [] E = Continue E"
| "run_keys (c # cs) E =
     (case main_step c E of
        Continue E' \<Rightarrow> run_keys cs E'
      | Exit n \<Rightarrow> Exit n
      | Fault \<Rightarrow> Fault)"

section \<open>Well-formed rows and states\<close>

text \<open>
  The representation invariant that every operation of the editor keeps: the \<open>chars\<close>
  buffer of a row holds \<open>size + 1\<close> bytes, and \<open>E.row\<close> is an array of \<open>numrows\<close>
  such rows.
\<close>

definition row_ok :: "erow \<Rightarrow> bool" where
  "row_ok r = (0 \<le> size_row r \<and> int (length (chars r)) = size_row r + 1)"

definition state_ok :: "editorConfig \<Rightarrow> bool" where
  "state_ok E = (numrows E = int (length (row E)) \<and> list_all row_ok (row E))"

text \<open>
  The cursor of a state: \<open>cursor_in_row\<close> says that \<open>cx\<close> is inside the row at \<open>cy\<close>,
  and is 0 when \<open>cy\<close> is past the last row; \<open>cursor_pre\<close> collects what the moves
  need of a state.
\<close>

definition cursor_pre :: "editorConfig \<Rightarrow> bool" where
  "cursor_pre E = (state_ok E \<and> 0 \<le> cx E \<and> 0 \<le> cy E \<and> 0 \<le> rowoff E \<and> 1 \<le> screenrows E)"

definition cursor_in_row :: "editorConfig \<Rightarrow> bool" where
  "cursor_in_row E =
     (if cy E < numrows E then
        (case rd (row E) (cy E) of None \<Rightarrow> False | Some r \<Rightarrow> cx E \<le> size_row r)
      else cx E = 0)"

text \<open>The content of a row: its \<open>size\<close> bytes, without the terminating NUL.\<close>

definition content :: "erow \<Rightarrow> byte list" where
  "content r = take (nat (size_row r)) (chars r)"

section \<open>The loops as functions on lists\<close>

text \<open>
  The two scans of a row, over the list of the bytes they visit: the rendered column
  after the bytes \<open>cs\<close> when started in column \<open>x\<close>, and the rendered bytes appended
  to \<open>out\<close>. They are used to reason about the loops above, which are proved equal to
  them on well-formed rows.
\<close>

definition rx_fold :: "int \<Rightarrow> byte list \<Rightarrow> int" where
  "rx_fold x cs = foldl (\<lambda>x ch. rx_step ch x) x cs"

fun render_list :: "byte list \<Rightarrow> byte list \<Rightarrow> byte list" where
  "render_list out [] = out"
| "render_list out (c # cs) =
     render_list (if c = 9 then out @ replicate (8 - length out mod 8) 32 else out @ [c]) cs"

section \<open>The escape sequences of the specification\<close>

text \<open>
  The table of section 4.2 of the specification, as a function of the input that follows
  the byte \<open>0x1b\<close>: after \<open>'['\<close> the letters \<open>A B C D H F\<close>, or a digit followed by
  \<open>'~'\<close> (1 or 7 Home, 3 Delete, 4 or 8 End, 5 PageUp, 6 PageDown); after \<open>'O'\<close> the
  letters \<open>H\<close> and \<open>F\<close>. \<open>None\<close> says that no pattern matches. It is compared with
  \<open>editorReadKey\<close> below.
\<close>

definition spec_escape_table :: "read_result list \<Rightarrow> int option" where
  "spec_escape_table inp =
     (case inp of
        Byte s0 # Byte s1 # rest \<Rightarrow>
          if s0 = 0x5b then
            (if s1 = 0x41 then Some ARROW_UP
             else if s1 = 0x42 then Some ARROW_DOWN
             else if s1 = 0x43 then Some ARROW_RIGHT
             else if s1 = 0x44 then Some ARROW_LEFT
             else if s1 = 0x48 then Some HOME_KEY
             else if s1 = 0x46 then Some END_KEY
             else
               (case rest of
                  Byte s2 # _ \<Rightarrow>
                    if s2 = 0x7e then
                      (if s1 = 0x31 \<or> s1 = 0x37 then Some HOME_KEY
                       else if s1 = 0x33 then Some DEL_KEY
                       else if s1 = 0x34 \<or> s1 = 0x38 then Some END_KEY
                       else if s1 = 0x35 then Some PAGE_UP
                       else if s1 = 0x36 then Some PAGE_DOWN
                       else None)
                    else None
                | _ \<Rightarrow> None))
          else if s0 = 0x4f then
            (if s1 = 0x48 then Some HOME_KEY
             else if s1 = 0x46 then Some END_KEY
             else None)
          else None
      | _ \<Rightarrow> None)"

section \<open>Example rows and states\<close>

text \<open>The row \<open>"ab"\<close> and the row \<open>"abcde\t"\<close>, as \<open>editorUpdateRow\<close> leaves them.\<close>

definition row_ab :: erow where
  "row_ab = \<lparr>size_row = 2, rsize = 2, chars = [97, 98, 0], render = [97, 98, 0]\<rparr>"

definition row_tab :: erow where
  "row_tab = \<lparr>size_row = 6, rsize = 8, chars = [97, 98, 99, 100, 101, 9, 0],
               render = [97, 98, 99, 100, 101, 32, 32, 32, 0]\<rparr>"

text \<open>The empty row that \<open>editorAppendRow("", 0)\<close> makes.\<close>

definition empty_row :: erow where
  "empty_row = \<lparr>size_row = 0, rsize = 0, chars = [0], render = [0]\<rparr>"

text \<open>
  States of a session on a terminal of 24 lines and 80 columns that starts with no file:
  after the key \<open>a\<close>; after \<open>a\<close>, Home, ArrowDown; after one more ArrowDown.
\<close>

definition row_a :: erow where
  "row_a = \<lparr>size_row = 1, rsize = 1, chars = [97, 0], render = [97, 0]\<rparr>"

definition st_a :: editorConfig where
  "st_a = \<lparr>cx = 1, cy = 0, rx = 0, rowoff = 0, coloff = 0, screenrows = 22, screencols = 80,
           numrows = 1, row = [row_a]\<rparr>"

definition st_end :: editorConfig where
  "st_end = \<lparr>cx = 0, cy = 1, rx = 0, rowoff = 0, coloff = 0, screenrows = 22, screencols = 80,
             numrows = 1, row = [row_a]\<rparr>"

definition st_below :: editorConfig where
  "st_below = \<lparr>cx = 0, cy = 2, rx = 0, rowoff = 0, coloff = 0, screenrows = 22, screencols = 80,
               numrows = 1, row = [row_a]\<rparr>"

text \<open>
  The row \<open>"abcde\t"\<close> before it is rendered, the row \<open>"a\tb"\<close>, and the row \<open>"ab\tc"\<close>
  of the end-to-end scenario of the specification with the buffer it is read from.
\<close>

definition row_raw :: erow where
  "row_raw = \<lparr>size_row = 6, rsize = 0, chars = [97, 98, 99, 100, 101, 9, 0], render = []\<rparr>"

definition row_atb :: erow where
  "row_atb = \<lparr>size_row = 3, rsize = 9, chars = [97, 9, 98, 0],
               render = [97, 32, 32, 32, 32, 32, 32, 32, 98, 0]\<rparr>"

definition line_abtc :: "byte list" where
  "line_abtc = [97, 98, 9, 99, 10, 0]"

definition row_abtc :: erow where
  "row_abtc = \<lparr>size_row = 4, rsize = 9, chars = [97, 98, 9, 99, 0],
                render = [97, 98, 32, 32, 32, 32, 32, 32, 99, 0]\<rparr>"



section \<open>Properties of the row operations\<close>

declare cx_to_rx_loop.simps [simp del] count_tabs.simps [simp del]
  pad_loop.simps [simp del] render_loop.simps [simp del] page_loop.simps [simp del]

subsection \<open>Arithmetic of the tab stop\<close>

lemma next_tab_int: "(x::int) + (7 - x mod 8) + 1 = 8 * (x div 8 + 1)"
proof -
  have "8 * (x div 8) = x - x mod 8" by (simp add: minus_mod_eq_mult_div [symmetric])
  then show ?thesis by (simp add: algebra_simps)
qed

lemma next_tab_nat: "int (n + (8 - n mod 8)) = 8 * (int n div 8 + 1)"
proof -
  have "n mod 8 < 8" by simp
  then have "int (n + (8 - n mod 8)) = int n + (7 - int n mod 8) + 1"
    by (simp add: zmod_int of_nat_diff)
  then show ?thesis by (simp only: next_tab_int)
qed

lemma pad_zero: "(8 - n mod 8) mod 8 = 0 \<Longrightarrow> n mod 8 = (0::nat)"
proof (rule ccontr)
  assume a: "(8 - n mod 8) mod 8 = 0" and b: "n mod 8 \<noteq> 0"
  have "n mod 8 < 8" by simp
  with b have "8 - n mod 8 < 8" "0 < 8 - n mod 8" by linarith+
  then show False using a by simp
qed

lemma pad_Suc:
  assumes "(8 - n mod 8) mod 8 = Suc k"
  shows "n mod 8 \<noteq> (0::nat)" and "(8 - Suc n mod 8) mod 8 = k"
proof -
  show ne: "n mod 8 \<noteq> 0"
  proof
    assume "n mod 8 = 0"
    then have "(8 - n mod 8) mod 8 = 0" by simp
    with assms show False by simp
  qed
  have lt: "n mod 8 < 8" by simp
  have "8 - n mod 8 < 8" using ne lt by linarith
  then have k: "8 - n mod 8 = Suc k" using assms by simp
  show "(8 - Suc n mod 8) mod 8 = k"
  proof (cases "Suc (n mod 8) = 8")
    case True
    then show ?thesis using k by (simp add: mod_Suc)
  next
    case False
    then have "Suc n mod 8 = Suc (n mod 8)" by (simp add: mod_Suc)
    then show ?thesis using k by simp
  qed
qed

lemma pad_after_one: "(8 - Suc n mod 8) mod 8 = 7 - n mod (8::nat)"
proof (cases "Suc (n mod 8) = 8")
  case True
  then show ?thesis by (simp add: mod_Suc)
next
  case False
  have "n mod 8 < 8" by simp
  with False have "Suc n mod 8 = Suc (n mod 8)" "0 < 8 - Suc (n mod 8)" by (simp_all add: mod_Suc)
  then show ?thesis by simp
qed

lemma pad_total: "8 - n mod 8 = Suc (7 - n mod (8::nat))"
proof -
  have "n mod 8 < 8" by simp
  then show ?thesis by linarith
qed

subsection \<open>The rendered column\<close>

lemma rx_fold_simps [simp]:
  "rx_fold x [] = x" "rx_fold x (c # cs) = rx_fold (rx_step c x) cs"
  by (simp_all add: rx_fold_def)

lemma rx_fold_append: "rx_fold x (as @ bs) = rx_fold (rx_fold x as) bs"
  by (simp add: rx_fold_def)

lemma smod_nonneg: "0 \<le> x \<Longrightarrow> (x::int) smod 8 = x mod 8"
  by (cases "x = 0") (simp_all add: smod_int_alt_def)

lemma rx_step_gt: "x < rx_step c x"
  using smod_int_range [where a = x and b = 8]
  by (auto simp: rx_step_def EDIT_TAB_STOP_def)

lemma rx_step_tab: "0 \<le> x \<Longrightarrow> rx_step 9 x = 8 * (x div 8 + 1)"
  using next_tab_int [of x] by (simp add: rx_step_def EDIT_TAB_STOP_def smod_nonneg)

lemma rx_step_other: "c \<noteq> 9 \<Longrightarrow> rx_step c x = x + 1"
  by (simp add: rx_step_def)

lemma rx_fold_ge: "x + int (length cs) \<le> rx_fold x cs"
proof (induction cs arbitrary: x)
  case Nil
  show ?case by simp
next
  case (Cons c cs)
  have "rx_step c x + int (length cs) \<le> rx_fold (rx_step c x) cs" by (rule Cons.IH)
  with rx_step_gt [of x c] show ?case by simp
qed

lemma take_drop_step:
  assumes "0 \<le> j" "j < c" "c \<le> int (length cs)"
  shows "take (nat (c - j)) (drop (nat j) cs)
         = cs ! nat j # take (nat (c - (j + 1))) (drop (nat (j + 1)) cs)"
proof -
  have l: "nat j < length cs" using assms by linarith
  have n: "nat (c - j) = Suc (nat (c - (j + 1)))" using assms by linarith
  have s: "nat (j + 1) = Suc (nat j)" using assms by linarith
  show ?thesis
    unfolding n s using Cons_nth_drop_Suc [OF l, symmetric] by simp
qed

lemma cx_to_rx_loop_fold:
  "0 \<le> j \<Longrightarrow> c \<le> int (length (chars r)) \<Longrightarrow>
   cx_to_rx_loop r c j x = Some (rx_fold x (take (nat (c - j)) (drop (nat j) (chars r))))"
proof (induction r c j x rule: cx_to_rx_loop.induct)
  case (1 r c j x)
  show ?case
  proof (cases "j < c")
    case False
    then show ?thesis by (simp add: cx_to_rx_loop.simps [of r c j x])
  next
    case True
    have rdj: "rd (chars r) j = Some (chars r ! nat j)"
      using True "1.prems" by (simp add: rd_def)
    have "cx_to_rx_loop r c (j + 1) (rx_step (chars r ! nat j) x)
          = Some (rx_fold (rx_step (chars r ! nat j) x)
                    (take (nat (c - (j + 1))) (drop (nat (j + 1)) (chars r))))"
      using "1.IH" [OF True rdj] "1.prems" by simp
    then show ?thesis
      using True rdj take_drop_step [OF "1.prems"(1) True "1.prems"(2)]
      by (simp add: cx_to_rx_loop.simps [of r c j x])
  qed
qed

lemma editorRowCxToRx_fold:
  "c \<le> int (length (chars r)) \<Longrightarrow>
   editorRowCxToRx r c = Some (rx_fold 0 (take (nat c) (chars r)))"
  using cx_to_rx_loop_fold [of 0 c r 0] by (simp add: editorRowCxToRx_def)

lemma rx_fold_nonneg: "0 \<le> x \<Longrightarrow> 0 \<le> rx_fold x cs"
  using rx_fold_ge [of x cs] by linarith

lemma rx_fold_mono_take:
  assumes "a \<le> b"
  shows "rx_fold x (take a cs) \<le> rx_fold x (take b cs)"
proof -
  have "take b cs = take (a + (b - a)) cs" using assms by simp
  then have "take b cs = take a cs @ take (b - a) (drop a cs)"
    by (simp only: take_add)
  then have "rx_fold x (take b cs) = rx_fold (rx_fold x (take a cs)) (take (b - a) (drop a cs))"
    by (simp add: rx_fold_append)
  then show ?thesis
    using rx_fold_ge [of "rx_fold x (take a cs)" "take (b - a) (drop a cs)"] by linarith
qed

lemma rx_fold_take_Suc:
  "n < length cs \<Longrightarrow> rx_fold x (take (Suc n) cs) = rx_step (cs ! n) (rx_fold x (take n cs))"
  by (simp add: take_Suc_conv_app_nth rx_fold_append)

lemma rx_fold_no_tab: "9 \<notin> set cs \<Longrightarrow> rx_fold x cs = x + int (length cs)"
  by (induction cs arbitrary: x) (auto simp: rx_step_other)

subsection \<open>The render form\<close>

lemma length_render_list:
  "int (length (render_list out cs)) = rx_fold (int (length out)) cs"
proof (induction cs arbitrary: out)
  case Nil show ?case by simp
next
  case (Cons c cs)
  show ?case
  proof (cases "c = 9")
    case True
    have "int (length out + (8 - length out mod 8)) = rx_step 9 (int (length out))"
      by (simp only: rx_step_tab [OF of_nat_0_le_iff] next_tab_nat)
    then show ?thesis using True Cons.IH [of "out @ replicate (8 - length out mod 8) 32"]
      by simp
  next
    case False
    have "int (length (out @ [c])) = rx_step c (int (length out))"
      using False by (simp add: rx_step_other)
    then show ?thesis using False Cons.IH [of "out @ [c]"]
      by (simp del: length_append)
  qed
qed

lemma render_list_prefix: "\<exists>ys. render_list out cs = out @ ys"
proof (induction cs arbitrary: out)
  case Nil show ?case by simp
next
  case (Cons c cs)
  let ?o = "if c = 9 then out @ replicate (8 - length out mod 8) 32 else out @ [c]"
  obtain zs where z: "?o = out @ zs" by (cases "c = 9") auto
  obtain ys where "render_list ?o cs = ?o @ ys" using Cons.IH [of ?o] by blast
  then have "render_list out (c # cs) = out @ (zs @ ys)" using z by simp
  then show ?case by blast
qed

lemma render_list_no_tab_in: "9 \<notin> set out \<Longrightarrow> 9 \<notin> set (render_list out cs)"
  by (induction cs arbitrary: out) auto

lemma render_list_no_tab: "9 \<notin> set cs \<Longrightarrow> render_list out cs = out @ cs"
  by (induction cs arbitrary: out) auto

lemma length_render_list_le:
  "length (render_list out cs) \<le> length out + length cs + 7 * length (filter (\<lambda>c. c = 9) cs)"
proof (induction cs arbitrary: out)
  case Nil show ?case by simp
next
  case (Cons c cs)
  show ?case
  proof (cases "c = 9")
    case True
    have "length (out @ replicate (8 - length out mod 8) (32::byte)) \<le> length out + 8" by simp
    with Cons.IH [of "out @ replicate (8 - length out mod 8) 32"] True show ?thesis
      by simp
  next
    case False
    with Cons.IH [of "out @ [c]"] show ?thesis by simp
  qed
qed

lemma length_render_list_ge: "length out \<le> length (render_list out cs)"
  using render_list_prefix [of out cs] by auto

lemma smod_length: "int (length (out::'a list)) smod EDIT_TAB_STOP = int (length out mod 8)"
  by (simp add: EDIT_TAB_STOP_def smod_nonneg zmod_int)

lemma pad_loop_eq:
  "(8 - length out mod 8) mod 8 = k \<Longrightarrow> int (length out) + int k \<le> cap \<Longrightarrow>
   pad_loop cap out = Some (out @ replicate k 32)"
proof (induction k arbitrary: out)
  case 0
  have "length out mod 8 = 0" using "0.prems"(1) by (rule pad_zero)
  then show ?case by (simp add: pad_loop.simps [of cap out] smod_length)
next
  case (Suc k)
  have ne: "length out mod 8 \<noteq> 0" using pad_Suc(1) [OF Suc.prems(1)] .
  have p: "put cap out 32 = Some (out @ [32])" using Suc.prems(2) by (simp add: put_def)
  have "(8 - length (out @ [32::byte]) mod 8) mod 8 = k"
    using pad_Suc(2) [OF Suc.prems(1)] by simp
  moreover have "int (length (out @ [32::byte])) + int k \<le> cap" using Suc.prems(2) by simp
  ultimately have "pad_loop cap (out @ [32]) = Some ((out @ [32]) @ replicate k 32)"
    by (rule Suc.IH)
  then show ?case using ne p
    by (simp add: pad_loop.simps [of cap out] smod_length replicate_app_Cons_same)
qed

lemma count_tabs_eq:
  "0 \<le> j \<Longrightarrow> size_row r \<le> int (length (chars r)) \<Longrightarrow>
   count_tabs r j t
   = Some (t + int (length (filter (\<lambda>c. c = 9)
                      (take (nat (size_row r - j)) (drop (nat j) (chars r))))))"
proof (induction r j t rule: count_tabs.induct)
  case (1 r j t)
  show ?case
  proof (cases "j < size_row r")
    case False
    then show ?thesis by (simp add: count_tabs.simps [of r j t])
  next
    case True
    have rdj: "rd (chars r) j = Some (chars r ! nat j)"
      using True "1.prems" by (simp add: rd_def)
    note ih = "1.IH" [OF True rdj _ "1.prems"(2)]
    show ?thesis
      using True rdj ih take_drop_step [OF "1.prems"(1) True "1.prems"(2)] "1.prems"(1)
      by (simp add: count_tabs.simps [of r j t])
  qed
qed

lemma render_loop_eq:
  "0 \<le> j \<Longrightarrow> size_row r \<le> int (length (chars r)) \<Longrightarrow>
   int (length (render_list out (take (nat (size_row r - j)) (drop (nat j) (chars r))))) \<le> cap \<Longrightarrow>
   render_loop r cap j out
   = Some (render_list out (take (nat (size_row r - j)) (drop (nat j) (chars r))))"
proof (induction r cap j out rule: render_loop.induct)
  case (1 r cap j out)
  let ?cs = "\<lambda>j. take (nat (size_row r - j)) (drop (nat j) (chars r))"
  show ?case
  proof (cases "j < size_row r")
    case False
    then show ?thesis by (simp add: render_loop.simps [of r cap j out])
  next
    case True
    have rdj: "rd (chars r) j = Some (chars r ! nat j)"
      using True "1.prems" by (simp add: rd_def)
    have split: "?cs j = chars r ! nat j # ?cs (j + 1)"
      by (rule take_drop_step [OF "1.prems"(1) True "1.prems"(2)])
    have j1: "0 \<le> j + 1" using "1.prems"(1) by simp
    show ?thesis
    proof (cases "chars r ! nat j = 9")
      case tab: True
      let ?o2 = "out @ replicate (8 - length out mod 8) 32"
      have fin: "int (length (render_list ?o2 (?cs (j + 1)))) \<le> cap"
        using "1.prems"(3) split tab by simp
      have "length ?o2 \<le> length (render_list ?o2 (?cs (j + 1)))"
        by (rule length_render_list_ge)
      with fin have o2: "int (length ?o2) \<le> cap" by linarith
      have lt: "int (length out) < cap" using o2 by simp
      have p: "put cap out 32 = Some (out @ [32])" using lt by (simp add: put_def)
      have k: "(8 - length (out @ [32::byte]) mod 8) mod 8 = 7 - length out mod 8"
        using pad_after_one [of "length out"] by simp
      have "int (length (out @ [32::byte])) + int (7 - length out mod 8) \<le> cap"
        using o2 by simp
      from pad_loop_eq [OF k this]
      have "pad_loop cap (out @ [32]) = Some ((out @ [32]) @ replicate (7 - length out mod 8) 32)" .
      moreover have "(out @ [32::byte]) @ replicate (7 - length out mod 8) 32 = ?o2"
      proof -
        have "8 - length out mod 8 = Suc (7 - length out mod 8)" by (rule pad_total)
        then show ?thesis by (simp add: replicate_app_Cons_same)
      qed
      ultimately have pl: "pad_loop cap (out @ [32]) = Some ?o2" by simp
      have "render_loop r cap (j + 1) ?o2 = Some (render_list ?o2 (?cs (j + 1)))"
        using "1.IH"(1) [OF True rdj tab p pl j1 "1.prems"(2) fin] .
      then show ?thesis
        using True rdj tab p pl split by (simp add: render_loop.simps [of r cap j out])
    next
      case other: False
      let ?o1 = "out @ [chars r ! nat j]"
      have fin: "int (length (render_list ?o1 (?cs (j + 1)))) \<le> cap"
        using "1.prems"(3) split other by simp
      have "length ?o1 \<le> length (render_list ?o1 (?cs (j + 1)))"
        by (rule length_render_list_ge)
      with fin have lt: "int (length out) < cap" by simp
      have p: "put cap out (chars r ! nat j) = Some ?o1" using lt by (simp add: put_def)
      have "render_loop r cap (j + 1) ?o1 = Some (render_list ?o1 (?cs (j + 1)))"
        using "1.IH"(2) [OF True rdj other p j1 "1.prems"(2) fin] .
      then show ?thesis
        using True rdj other p split by (simp add: render_loop.simps [of r cap j out])
    qed
  qed
qed

lemma editorUpdateRow_eq:
  assumes "row_ok r"
  shows "editorUpdateRow r
         = Some (r\<lparr>render := render_list [] (content r) @ [0],
                   rsize := int (length (render_list [] (content r)))\<rparr>)"
proof -
  have sz: "0 \<le> size_row r" "size_row r \<le> int (length (chars r))"
    using assms by (simp_all add: row_ok_def)
  have ct: "count_tabs r 0 0 = Some (int (length (filter (\<lambda>c. c = 9) (content r))))"
    using count_tabs_eq [of 0 r 0] sz by (simp add: content_def)
  let ?cap = "size_row r + int (length (filter (\<lambda>c. c = 9) (content r))) * (EDIT_TAB_STOP - 1) + 1"
  have len: "int (length (content r)) = size_row r" using sz by (simp add: content_def)
  have "length (render_list [] (content r))
        \<le> length ([]::byte list) + length (content r) + 7 * length (filter (\<lambda>c. c = 9) (content r))"
    by (rule length_render_list_le)
  then have lt: "int (length (render_list [] (content r))) < ?cap"
    using len by (simp add: EDIT_TAB_STOP_def)
  then have "render_loop r ?cap 0 [] = Some (render_list [] (content r))"
    using render_loop_eq [of 0 r "[]" ?cap] sz by (simp add: content_def)
  then show ?thesis
    using ct lt by (simp add: editorUpdateRow_def put_def Let_def)
qed

subsection \<open>Inserting a byte\<close>

lemma editorUpdateRow_keeps:
  assumes "row_ok r" "editorUpdateRow r = Some r'"
  shows "chars r' = chars r" "size_row r' = size_row r" "content r' = content r" "row_ok r'"
    "rsize r' = int (length (render_list [] (content r)))"
    "render r' = render_list [] (content r) @ [0]"
  using assms editorUpdateRow_eq [OF assms(1)] by (auto simp: content_def row_ok_def)

lemma insert_shift:
  assumes "n < length cs"
  shows "(take (Suc n) (cs @ [u]) @ take (length cs - n) (drop n (cs @ [u]))
          @ drop (Suc (length cs)) (cs @ [u]))[n := v]
         = take n cs @ v # drop n cs"
proof -
  have a: "take (Suc n) (cs @ [u]) = take n cs @ [cs ! n]"
    using assms by (simp add: take_Suc_conv_app_nth)
  have b: "take (length cs - n) (drop n (cs @ [u])) = drop n cs"
    using assms by simp
  have c: "drop (Suc (length cs)) (cs @ [u]) = []" by simp
  have "((take n cs @ [cs ! n]) @ drop n cs)[n := v] = take n cs @ v # drop n cs"
    using assms by (simp add: list_update_append)
  then show ?thesis by (simp only: a b c append_Nil2)
qed

lemma editorRowInsertChar_eq:
  assumes "row_ok r" "0 \<le> k" "k \<le> size_row r"
  shows "editorRowInsertChar r k c
         = editorUpdateRow (r\<lparr>chars := take (nat k) (chars r) @ word_of_int c # drop (nat k) (chars r),
                               size_row := size_row r + 1\<rparr>)"
proof -
  let ?cs = "chars r"
  have len: "int (length ?cs) = size_row r + 1" and sz: "0 \<le> size_row r"
    using assms(1) by (simp_all add: row_ok_def)
  have n: "nat k < length ?cs" using assms len by linarith
  have re: "realloc uninit ?cs (size_row r + 2) = Some (?cs @ [uninit])"
  proof -
    have "nat (size_row r + 2) = Suc (length ?cs)" using len by linarith
    then show ?thesis using sz by (simp add: realloc_def)
  qed
  have e1: "nat (k + 1) = Suc (nat k)" using assms(2) by linarith
  have e2: "nat (size_row r - k + 1) = length ?cs - nat k" using assms len by linarith
  have e3: "nat (k + 1 + (size_row r - k + 1)) = Suc (length ?cs)" using len by linarith
  have mm: "memmove (?cs @ [uninit]) (k + 1) k (size_row r - k + 1)
            = Some (take (Suc (nat k)) (?cs @ [uninit])
                    @ take (length ?cs - nat k) (drop (nat k) (?cs @ [uninit]))
                    @ drop (Suc (length ?cs)) (?cs @ [uninit]))"
    unfolding memmove_def e1 e2 e3 using assms len by simp
  let ?b2 = "take (Suc (nat k)) (?cs @ [uninit])
             @ take (length ?cs - nat k) (drop (nat k) (?cs @ [uninit]))
             @ drop (Suc (length ?cs)) (?cs @ [uninit])"
  have l2: "length ?b2 = Suc (length ?cs)" using n by simp
  have w: "wr ?b2 k (word_of_int c)
           = Some (take (nat k) ?cs @ word_of_int c # drop (nat k) ?cs)"
    using insert_shift [OF n, of uninit "word_of_int c"] assms(2) n l2
    by (simp only: wr_def) simp
  have cl: "(if k < 0 \<or> k > size_row r then size_row r else k) = k" using assms by simp
  show ?thesis
    by (simp only: editorRowInsertChar_def Let_def cl re mm w option.case)
qed

lemma editorRowInsertChar_clamp:
  "at0 < 0 \<or> at0 > size_row r \<Longrightarrow>
   editorRowInsertChar r at0 c = editorRowInsertChar r (size_row r) c"
  by (simp add: editorRowInsertChar_def)

lemma editorRowInsertChar_Some:
  assumes "row_ok r" "0 \<le> k" "k \<le> size_row r"
  shows "\<exists>r'. editorRowInsertChar r k c = Some r' \<and> row_ok r'
           \<and> size_row r' = size_row r + 1
           \<and> chars r' = take (nat k) (chars r) @ word_of_int c # drop (nat k) (chars r)"
proof -
  let ?r1 = "r\<lparr>chars := take (nat k) (chars r) @ word_of_int c # drop (nat k) (chars r),
               size_row := size_row r + 1\<rparr>"
  have ok1: "row_ok ?r1" using assms by (auto simp: row_ok_def)
  from editorUpdateRow_eq [OF ok1] obtain r' where u: "editorUpdateRow ?r1 = Some r'" by blast
  from editorUpdateRow_keeps [OF ok1 u] editorRowInsertChar_eq [OF assms, of c] u
  show ?thesis by simp
qed

lemma insert_nth:
  assumes "n \<le> length cs"
  shows "i < n \<Longrightarrow> (take n cs @ v # drop n cs) ! i = cs ! i"
    and "(take n cs @ v # drop n cs) ! n = v"
    and "n < i \<Longrightarrow> i \<le> length cs \<Longrightarrow> (take n cs @ v # drop n cs) ! i = cs ! (i - 1)"
proof -
  have l: "length (take n cs) = n" using assms by simp
  show "i < n \<Longrightarrow> (take n cs @ v # drop n cs) ! i = cs ! i"
    using l by (simp add: nth_append)
  show "(take n cs @ v # drop n cs) ! n = v"
    using nth_append_length [of "take n cs" v "drop n cs"] l by simp
  show "n < i \<Longrightarrow> i \<le> length cs \<Longrightarrow> (take n cs @ v # drop n cs) ! i = cs ! (i - 1)"
  proof -
    assume a: "n < i" "i \<le> length cs"
    from less_imp_Suc_add [OF a(1)] obtain e where "i = Suc (n + e)" ..
    then obtain d where d: "i = n + Suc d" by simp
    have "(take n cs @ v # drop n cs) ! (n + Suc d) = (v # drop n cs) ! Suc d"
      using nth_append_length_plus [of "take n cs" "v # drop n cs" "Suc d"] l by simp
    also have "\<dots> = cs ! (n + d)" using a d by simp
    finally show ?thesis using d by simp
  qed
qed

text \<open>
  Claim C4. For a well-formed row of size \<open>n\<close>, an offset \<open>k\<close> with \<open>0 \<le> k \<le> n\<close> and
  a byte \<open>c\<close>, \<open>editorRowInsertChar\<close> returns a row of size \<open>n + 1\<close> whose bytes
  \<open>[0, k)\<close> are the original bytes \<open>[0, k)\<close>, whose byte \<open>k\<close> is \<open>c\<close>, and whose bytes
  \<open>[k + 1, n + 1)\<close> are the original bytes \<open>[k, n)\<close>.
\<close>

theorem editorRowInsertChar_preserves_neighbours:
  assumes "row_ok r" "0 \<le> k" "k \<le> size_row r"
  shows "\<exists>r'. editorRowInsertChar r k c = Some r'
           \<and> size_row r' = size_row r + 1
           \<and> int (length (chars r')) = size_row r' + 1
           \<and> (\<forall>i. 0 \<le> i \<and> i < k \<longrightarrow> chars r' ! nat i = chars r ! nat i)
           \<and> chars r' ! nat k = word_of_int c
           \<and> (\<forall>i. k + 1 \<le> i \<and> i < size_row r + 1 \<longrightarrow> chars r' ! nat i = chars r ! nat (i - 1))"
proof -
  from editorRowInsertChar_Some [OF assms, of c] obtain r' where
    r': "editorRowInsertChar r k c = Some r'" "row_ok r'" "size_row r' = size_row r + 1"
        "chars r' = take (nat k) (chars r) @ word_of_int c # drop (nat k) (chars r)"
    by blast
  have len: "int (length (chars r)) = size_row r + 1" using assms(1) by (simp add: row_ok_def)
  have n: "nat k \<le> length (chars r)" using assms len by linarith
  have before: "chars r' ! nat i = chars r ! nat i" if "0 \<le> i \<and> i < k" for i
  proof -
    have "nat i < nat k" using that by linarith
    then show ?thesis unfolding r'(4) by (rule insert_nth(1) [OF n])
  qed
  have at: "chars r' ! nat k = word_of_int c"
    unfolding r'(4) by (rule insert_nth(2) [OF n])
  have after: "chars r' ! nat i = chars r ! nat (i - 1)" if "k + 1 \<le> i \<and> i < size_row r + 1" for i
  proof -
    have "nat k < nat i" "nat i \<le> length (chars r)" using that assms(2) len by linarith+
    then have "chars r' ! nat i = chars r ! (nat i - 1)"
      unfolding r'(4) by (rule insert_nth(3) [OF n])
    moreover have "nat i - 1 = nat (i - 1)" using that assms(2) by linarith
    ultimately show ?thesis by simp
  qed
  have "int (length (chars r')) = size_row r' + 1" using r'(2) by (simp add: row_ok_def)
  with r'(1,3) before at after show ?thesis by blast
qed

theorem editorRowInsertChar_preserves_neighbours_witness:
  "row_ok row_ab \<and> (0::int) \<le> 1 \<and> 1 \<le> size_row row_ab
   \<and> (\<exists>r'. editorRowInsertChar row_ab 1 120 = Some r' \<and> size_row r' = 3
          \<and> chars r' ! 0 = 97 \<and> chars r' ! 1 = 120 \<and> chars r' ! 2 = 98)"
proof -
  have h1: "row_ok row_ab" by (simp add: row_ok_def row_ab_def)
  have h2: "(0::int) \<le> 1" by simp
  have h3: "1 \<le> size_row row_ab" by (simp add: row_ab_def)
  from editorRowInsertChar_preserves_neighbours [OF h1 h2 h3, of 120]
  obtain r' where r': "editorRowInsertChar row_ab 1 120 = Some r'"
    "size_row r' = size_row row_ab + 1"
    "\<forall>i. 0 \<le> i \<and> i < 1 \<longrightarrow> chars r' ! nat i = chars row_ab ! nat i"
    "chars r' ! nat 1 = word_of_int 120"
    "\<forall>i. 1 + 1 \<le> i \<and> i < size_row row_ab + 1 \<longrightarrow> chars r' ! nat i = chars row_ab ! nat (i - 1)"
    by blast
  from r'(3) [rule_format, of 0] have "chars r' ! nat 0 = chars row_ab ! nat 0" by simp
  moreover from r'(5) [rule_format, of 2] have "chars r' ! nat 2 = chars row_ab ! nat (2 - 1)"
    by (simp add: row_ab_def)
  ultimately show ?thesis using h1 h2 h3 r'(1,2,4) by (simp add: row_ab_def)
qed

text \<open>
  Claim C10. An offset out of range, negative or greater than the size of the row, is
  clamped to the end of the row: the byte is inserted at offset \<open>size\<close>, that is
  appended, also for a negative offset.
\<close>

theorem editorRowInsertChar_out_of_range_appends:
  assumes "row_ok r" "at0 < 0 \<or> size_row r < at0"
  shows "\<exists>r'. editorRowInsertChar r at0 c = Some r'
           \<and> editorRowInsertChar r (size_row r) c = Some r'
           \<and> size_row r' = size_row r + 1
           \<and> content r' = content r @ [word_of_int c]"
proof -
  have sz: "0 \<le> size_row r" and len: "int (length (chars r)) = size_row r + 1"
    using assms(1) by (simp_all add: row_ok_def)
  from editorRowInsertChar_Some [OF assms(1) sz order_refl, of c] obtain r' where
    r': "editorRowInsertChar r (size_row r) c = Some r'" "size_row r' = size_row r + 1"
        "chars r' = take (nat (size_row r)) (chars r) @ word_of_int c # drop (nat (size_row r)) (chars r)"
    by blast
  have cl: "editorRowInsertChar r at0 c = editorRowInsertChar r (size_row r) c"
    using assms(2) by (intro editorRowInsertChar_clamp) auto
  have l: "length (take (nat (size_row r)) (chars r)) = nat (size_row r)" using len by simp
  have "nat (size_row r + 1) = Suc (nat (size_row r))" using sz by linarith
  then have "content r' = content r @ [word_of_int c]"
    using l by (simp add: content_def r'(2,3))
  with cl r'(1,2) show ?thesis by simp
qed

theorem editorRowInsertChar_out_of_range_appends_witness:
  "row_ok row_ab \<and> ((-1::int) < 0 \<or> size_row row_ab < -1)
   \<and> (\<exists>r'. editorRowInsertChar row_ab (-1) 120 = Some r' \<and> size_row r' = 3
          \<and> content r' = [97, 98, 120])"
proof -
  have h1: "row_ok row_ab" by (simp add: row_ok_def row_ab_def)
  have h2: "(-1::int) < 0 \<or> size_row row_ab < -1" by simp
  from editorRowInsertChar_out_of_range_appends [OF h1 h2, of 120]
  obtain r' where r': "editorRowInsertChar row_ab (-1) 120 = Some r'"
    "size_row r' = size_row row_ab + 1" "content r' = content row_ab @ [word_of_int 120]"
    by blast
  have "size_row r' = 3" "content r' = [97, 98, 120]"
    using r'(2,3) by (simp_all add: row_ab_def content_def)
  with r'(1) h1 h2 show ?thesis by blast
qed

subsection \<open>Monotonicity and tab stops\<close>

lemma editorRowCxToRx_step:
  assumes "0 \<le> a" "a < int (length (chars r))" "editorRowCxToRx r a = Some x"
  shows "editorRowCxToRx r (a + 1) = Some (rx_step (chars r ! nat a) x)"
proof -
  have l: "nat a < length (chars r)" using assms by linarith
  have x: "x = rx_fold 0 (take (nat a) (chars r))"
    using editorRowCxToRx_fold [of a r] assms by simp
  have "nat (a + 1) = Suc (nat a)" using assms(1) by linarith
  then have "editorRowCxToRx r (a + 1) = Some (rx_fold 0 (take (Suc (nat a)) (chars r)))"
    using editorRowCxToRx_fold [of "a + 1" r] assms(2) by simp
  then show ?thesis using rx_fold_take_Suc [OF l, of 0] x by simp
qed

text \<open>
  Claim C7. \<open>editorRowCxToRx\<close> is non-decreasing in \<open>cx\<close> on a well-formed row and
  \<open>0 \<le> cx \<le> size\<close>. A tab met in rendered column \<open>x\<close> moves the column to the next
  multiple of 8 above \<open>x\<close>: from 0 to 8, from 5 to 8, from 8 to 16. Every other byte
  moves it by exactly one.
\<close>

theorem editorRowCxToRx_monotone_tab_stop:
  assumes "row_ok r" "0 \<le> a" "a \<le> b" "b \<le> size_row r"
  shows "\<exists>xa xb. editorRowCxToRx r a = Some xa \<and> editorRowCxToRx r b = Some xb
           \<and> 0 \<le> xa \<and> xa \<le> xb
           \<and> (a < b \<and> chars r ! nat a = 9 \<longrightarrow>
                editorRowCxToRx r (a + 1) = Some (8 * (xa div 8 + 1)))
           \<and> (a < b \<and> chars r ! nat a = 9 \<and> xa = 0 \<longrightarrow> editorRowCxToRx r (a + 1) = Some 8)
           \<and> (a < b \<and> chars r ! nat a = 9 \<and> xa = 5 \<longrightarrow> editorRowCxToRx r (a + 1) = Some 8)
           \<and> (a < b \<and> chars r ! nat a = 9 \<and> xa = 8 \<longrightarrow> editorRowCxToRx r (a + 1) = Some 16)
           \<and> (a < b \<and> chars r ! nat a \<noteq> 9 \<longrightarrow> editorRowCxToRx r (a + 1) = Some (xa + 1))"
proof -
  have len: "int (length (chars r)) = size_row r + 1" using assms(1) by (simp add: row_ok_def)
  define xa where "xa = rx_fold 0 (take (nat a) (chars r))"
  define xb where "xb = rx_fold 0 (take (nat b) (chars r))"
  have ea: "editorRowCxToRx r a = Some xa"
    unfolding xa_def using assms len by (intro editorRowCxToRx_fold) linarith
  have eb: "editorRowCxToRx r b = Some xb"
    unfolding xb_def using assms len by (intro editorRowCxToRx_fold) linarith
  have nn: "0 \<le> xa" unfolding xa_def by (rule rx_fold_nonneg) simp
  have "nat a \<le> nat b" using assms by linarith
  then have mono: "xa \<le> xb" unfolding xa_def xb_def by (rule rx_fold_mono_take)
  have step: "editorRowCxToRx r (a + 1) = Some (rx_step (chars r ! nat a) xa)" if "a < b"
    using that assms len by (intro editorRowCxToRx_step [OF _ _ ea]) linarith+
  have tab: "editorRowCxToRx r (a + 1) = Some (8 * (xa div 8 + 1))"
    if "a < b \<and> chars r ! nat a = 9"
    using step that rx_step_tab [OF nn] by simp
  have other: "editorRowCxToRx r (a + 1) = Some (xa + 1)"
    if "a < b \<and> chars r ! nat a \<noteq> 9"
    using step that rx_step_other [of "chars r ! nat a" xa] by simp
  have t0: "editorRowCxToRx r (a + 1) = Some 8" if "a < b \<and> chars r ! nat a = 9 \<and> xa = 0"
    using tab that by simp
  have t5: "editorRowCxToRx r (a + 1) = Some 8" if "a < b \<and> chars r ! nat a = 9 \<and> xa = 5"
    using tab that by simp
  have t8: "editorRowCxToRx r (a + 1) = Some 16" if "a < b \<and> chars r ! nat a = 9 \<and> xa = 8"
    using tab that by simp
  show ?thesis
    apply (rule exI [of _ xa], rule exI [of _ xb])
    using ea eb nn mono tab t0 t5 t8 other by (intro conjI impI) blast+
qed

theorem editorRowCxToRx_monotone_tab_stop_witness:
  "row_ok row_tab \<and> (0::int) \<le> 5 \<and> (5::int) \<le> 6 \<and> 6 \<le> size_row row_tab
   \<and> editorRowCxToRx row_tab 5 = Some 5 \<and> editorRowCxToRx row_tab 6 = Some 8"
proof -
  have h1: "row_ok row_tab" by (simp add: row_ok_def row_tab_def)
  have h2: "(0::int) \<le> 5" and h3: "(5::int) \<le> 6" by simp_all
  have h4: "6 \<le> size_row row_tab" by (simp add: row_tab_def)
  have e5: "editorRowCxToRx row_tab 5 = Some 5" by (simp add: row_tab_def) code_simp
  from editorRowCxToRx_monotone_tab_stop [OF h1 h2 h3 h4]
  obtain xa where "editorRowCxToRx row_tab 5 = Some xa"
    "(5::int) < 6 \<and> chars row_tab ! nat 5 = 9 \<and> xa = 5 \<longrightarrow> editorRowCxToRx row_tab (5 + 1) = Some 8"
    by blast
  with e5 have "editorRowCxToRx row_tab 6 = Some 8" by (simp add: row_tab_def)
  with h1 h2 h3 h4 e5 show ?thesis by blast
qed

subsection \<open>Tab expansion\<close>

lemma content_length:
  assumes "row_ok r"
  shows "int (length (content r)) = size_row r"
proof -
  have "0 \<le> size_row r" "int (length (chars r)) = size_row r + 1"
    using assms by (simp_all add: row_ok_def)
  then have "nat (size_row r) \<le> length (chars r)" "int (nat (size_row r)) = size_row r"
    by linarith+
  then show ?thesis by (simp add: content_def min_absorb2)
qed

lemma take_content:
  assumes "row_ok r" "0 \<le> k" "k \<le> size_row r"
  shows "take (nat k) (chars r) = take (nat k) (content r)"
proof -
  have "min (nat k) (nat (size_row r)) = nat k" using assms by linarith
  then show ?thesis by (simp add: content_def)
qed

lemma editorRowCxToRx_content:
  assumes "row_ok r" "0 \<le> k" "k \<le> size_row r"
  shows "editorRowCxToRx r k = Some (rx_fold 0 (take (nat k) (content r)))"
proof -
  have "k \<le> int (length (chars r))" using assms by (simp add: row_ok_def)
  from editorRowCxToRx_fold [OF this] take_content [OF assms] show ?thesis by simp
qed

text \<open>
  Claim C8. For a well-formed row whose content has no tab byte, \<open>editorUpdateRow\<close>
  makes the render form equal to the content, \<open>rsize\<close> equal to \<open>size\<close>, and then
  \<open>editorRowCxToRx\<close> of every \<open>cx\<close> in \<open>[0, size]\<close> is \<open>cx\<close>.
\<close>

theorem editorUpdateRow_no_tab_identity:
  assumes "row_ok r" "9 \<notin> set (content r)"
  shows "\<exists>r'. editorUpdateRow r = Some r' \<and> chars r' = chars r \<and> size_row r' = size_row r
           \<and> rsize r' = size_row r'
           \<and> render r' = content r' @ [0]
           \<and> take (nat (rsize r')) (render r') = content r'
           \<and> (\<forall>k. 0 \<le> k \<and> k \<le> size_row r' \<longrightarrow> editorRowCxToRx r' k = Some k)"
proof -
  from editorUpdateRow_eq [OF assms(1)] obtain r' where u: "editorUpdateRow r = Some r'" by blast
  note k = editorUpdateRow_keeps [OF assms(1) u]
  have rl: "render_list [] (content r) = content r"
    using render_list_no_tab [OF assms(2), of "[]"] by simp
  have len: "int (length (content r)) = size_row r" by (rule content_length [OF assms(1)])
  have rs: "rsize r' = size_row r'" using k(2,5) rl len by simp
  have "nat (rsize r') = length (content r)" using rs k(2) len by linarith
  then have rn: "take (nat (rsize r')) (render r') = content r'"
    using k(3,6) rl by simp
  have rr: "render r' = content r' @ [0]" using k(3,6) rl by simp
  have col: "editorRowCxToRx r' j = Some j" if "0 \<le> j \<and> j \<le> size_row r'" for j
  proof -
    have j: "0 \<le> j" "j \<le> size_row r'" using that by simp_all
    have "set (take (nat j) (content r')) \<subseteq> set (content r')" by (rule set_take_subset)
    then have nt: "9 \<notin> set (take (nat j) (content r'))" using assms(2) k(3) by auto
    have "int (length (content r')) = size_row r'" using k(2,3) len by simp
    then have "nat j \<le> length (content r')" using j by linarith
    then have "int (length (take (nat j) (content r'))) = j" using j(1) by simp
    then have "rx_fold 0 (take (nat j) (content r')) = j"
      using rx_fold_no_tab [OF nt, of 0] by simp
    then show ?thesis using editorRowCxToRx_content [OF k(4) j] by simp
  qed
  from u k(1,2) rs rr rn col show ?thesis by blast
qed

theorem editorUpdateRow_no_tab_identity_witness:
  "row_ok row_ab \<and> 9 \<notin> set (content row_ab)
   \<and> (\<exists>r'. editorUpdateRow row_ab = Some r' \<and> rsize r' = 2
          \<and> take (nat (rsize r')) (render r') = [97, 98] \<and> editorRowCxToRx r' 2 = Some 2)"
proof -
  have h1: "row_ok row_ab" by (simp add: row_ok_def row_ab_def)
  have h2: "9 \<notin> set (content row_ab)" by (simp add: content_def row_ab_def)
  from editorUpdateRow_no_tab_identity [OF h1 h2]
  obtain r' where r': "editorUpdateRow row_ab = Some r'" "chars r' = chars row_ab"
    "size_row r' = size_row row_ab" "rsize r' = size_row r'"
    "take (nat (rsize r')) (render r') = content r'"
    "\<forall>k. 0 \<le> k \<and> k \<le> size_row r' \<longrightarrow> editorRowCxToRx r' k = Some k"
    by blast
  have s: "size_row r' = 2" using r'(3) by (simp add: row_ab_def)
  have "content r' = [97, 98]" using r'(2) s by (simp add: content_def row_ab_def)
  moreover have "editorRowCxToRx r' 2 = Some 2" using r'(6) [rule_format, of 2] s by simp
  ultimately show ?thesis using h1 h2 r'(1,4,5) s by auto
qed

lemma updated_row_render:
  assumes "row_ok r0" "editorUpdateRow r0 = Some r"
  shows "9 \<notin> set (take (nat (rsize r)) (render r))
         \<and> editorRowCxToRx r (size_row r) = Some (rsize r)
         \<and> int (length (render r)) = rsize r + 1
         \<and> (\<forall>k. 0 \<le> k \<and> k \<le> size_row r \<longrightarrow>
               (\<exists>x. editorRowCxToRx r k = Some x \<and> 0 \<le> x \<and> x \<le> rsize r))"
proof -
  note k = editorUpdateRow_keeps [OF assms]
  let ?rl = "render_list [] (content r0)"
  have sz: "0 \<le> size_row r" using k(4) by (simp add: row_ok_def)
  have len: "int (length (content r)) = size_row r" by (rule content_length [OF k(4)])
  have "take (nat (rsize r)) (render r) = ?rl" using k(5,6) by simp
  moreover have "9 \<notin> set ?rl" by (rule render_list_no_tab_in) simp
  ultimately have nt: "9 \<notin> set (take (nat (rsize r)) (render r))" by simp
  have bl: "int (length (render r)) = rsize r + 1" using k(5,6) by simp
  have full: "take (nat (size_row r)) (content r) = content r" using len by simp
  have rs: "rsize r = rx_fold 0 (content r)"
    using k(3,5) length_render_list [of "[]" "content r0"] by simp
  have e: "editorRowCxToRx r (size_row r) = Some (rsize r)"
    using editorRowCxToRx_content [OF k(4) sz order_refl] full rs by simp
  have col: "\<exists>x. editorRowCxToRx r j = Some x \<and> 0 \<le> x \<and> x \<le> rsize r"
    if "0 \<le> j \<and> j \<le> size_row r" for j
  proof -
    have j: "0 \<le> j" "j \<le> size_row r" using that by simp_all
    have "nat j \<le> nat (size_row r)" using j by linarith
    from rx_fold_mono_take [OF this, of 0 "content r"]
    have "rx_fold 0 (take (nat j) (content r)) \<le> rsize r" using full rs by simp
    moreover have "0 \<le> rx_fold 0 (take (nat j) (content r))" by (rule rx_fold_nonneg) simp
    ultimately show ?thesis using editorRowCxToRx_content [OF k(4) j] by simp
  qed
  from nt e bl col show ?thesis by blast
qed

lemma updated_row_render_list:
  assumes "row_ok r0" "editorUpdateRow r0 = Some r"
  shows "render r = render_list [] (content r) @ [0]"
  using editorUpdateRow_keeps(3,6) [OF assms] by simp

lemma editorUpdateRow_total:
  assumes "row_ok r0"
  shows "\<exists>r. editorUpdateRow r0 = Some r \<and> row_ok r \<and> chars r = chars r0
           \<and> size_row r = size_row r0"
proof -
  from editorUpdateRow_eq [OF assms] obtain r where u: "editorUpdateRow r0 = Some r" by blast
  from editorUpdateRow_keeps(1,2,4) [OF assms u] u show ?thesis by blast
qed

lemma editorRowInsertChar_total:
  assumes "row_ok r0"
  shows "\<exists>r r1. editorRowInsertChar r0 at0 c = Some r \<and> size_row r = size_row r0 + 1
           \<and> row_ok r1 \<and> editorUpdateRow r1 = Some r"
proof -
  have sz: "0 \<le> size_row r0" using assms by (simp add: row_ok_def)
  define k where "k = (if at0 < 0 \<or> at0 > size_row r0 then size_row r0 else at0)"
  have kr: "0 \<le> k" "k \<le> size_row r0" using sz by (auto simp: k_def)
  let ?r1 = "r0\<lparr>chars := take (nat k) (chars r0) @ word_of_int c # drop (nat k) (chars r0),
                size_row := size_row r0 + 1\<rparr>"
  have c: "editorRowInsertChar r0 at0 c = editorRowInsertChar r0 k c"
    using editorRowInsertChar_clamp [of at0 r0 c] by (auto simp: k_def)
  have e: "editorRowInsertChar r0 k c = editorUpdateRow ?r1"
    by (rule editorRowInsertChar_eq [OF assms kr])
  have ok1: "row_ok ?r1" using assms kr by (auto simp: row_ok_def)
  from editorUpdateRow_total [OF ok1] obtain r where
    r: "editorUpdateRow ?r1 = Some r" "size_row r = size_row ?r1" by blast
  have "editorRowInsertChar r0 at0 c = Some r" using c e r(1) by simp
  moreover have "size_row r = size_row r0 + 1" using r(2) by simp
  ultimately show ?thesis using ok1 r(1) by blast
qed

lemma editorAppendRow_total:
  assumes "state_ok E" "0 \<le> len" "len \<le> int (length s)"
  shows "\<exists>E' r r1. editorAppendRow s len E = Some E' \<and> numrows E' = numrows E + 1
           \<and> row E' = row E @ [r] \<and> rd (row E') (numrows E) = Some r
           \<and> size_row r = len \<and> content r = take (nat len) s
           \<and> row_ok r1 \<and> editorUpdateRow r1 = Some r"
proof -
  let ?r0 = "\<lparr>size_row = len, rsize = 0, chars = take (nat len) s @ [0], render = []\<rparr>"
  have n: "numrows E = int (length (row E))" using assms(1) by (simp add: state_ok_def)
  have "nat (numrows E + 1) = Suc (length (row E))" using n by linarith
  then have re: "realloc uninit_row (row E) (numrows E + 1) = Some (row E @ [uninit_row])"
    using n by (simp add: realloc_def)
  have l: "length (take (nat len) s) = nat len" using assms(2,3) by simp
  have ok: "row_ok ?r0" using assms(2) l by (simp add: row_ok_def)
  from editorUpdateRow_total [OF ok] obtain r where
    r: "editorUpdateRow ?r0 = Some r" "chars r = chars ?r0" "size_row r = size_row ?r0"
    by blast
  have w: "wr (row E @ [uninit_row]) (numrows E) r = Some (row E @ [r])"
    using n by (simp add: wr_def)
  have cnd: "\<not> (len < 0 \<or> int (length s) < len)" using assms(2,3) by simp
  have ap: "editorAppendRow s len E = Some (E\<lparr>row := row E @ [r], numrows := numrows E + 1\<rparr>)"
    by (simp only: editorAppendRow_def Let_def re r(1) w cnd option.case if_False)
  have rdl: "rd (row E @ [r]) (numrows E) = Some r" using n by (simp add: rd_def)
  have ct: "content r = take (nat len) s" using r(2,3) l by (simp add: content_def)
  show ?thesis
    apply (rule exI [of _ "E\<lparr>row := row E @ [r], numrows := numrows E + 1\<rparr>"])
    apply (rule exI [of _ r], rule exI [of _ ?r0])
    using ap rdl ct r(1,3) ok by simp
qed

text \<open>
  Claim C9. \<open>editorUpdateRow\<close> and \<open>editorRowInsertChar\<close> on a well-formed row, and
  \<open>editorAppendRow\<close> of any text on a well-formed state, return a row \<open>r\<close>. Its render
  form is the tab expansion of its content, followed by the NUL: it has no tab byte,
  \<open>rsize\<close> is \<open>editorRowCxToRx\<close> of \<open>size\<close>, and the rendered column of every \<open>cx\<close> in
  \<open>[0, size]\<close> lies in \<open>[0, rsize]\<close>, so it is an index of the render buffer.
\<close>

theorem rendered_column_within_render:
  "(row_ok r0 \<longrightarrow>
      (\<exists>r. editorUpdateRow r0 = Some r \<and> chars r = chars r0 \<and> size_row r = size_row r0
         \<and> render r = render_list [] (content r) @ [0]
         \<and> 9 \<notin> set (take (nat (rsize r)) (render r))
         \<and> editorRowCxToRx r (size_row r) = Some (rsize r)
         \<and> int (length (render r)) = rsize r + 1
         \<and> (\<forall>k. 0 \<le> k \<and> k \<le> size_row r \<longrightarrow>
               (\<exists>x. editorRowCxToRx r k = Some x \<and> 0 \<le> x \<and> x \<le> rsize r))))
   \<and> (row_ok r0 \<longrightarrow>
      (\<exists>r. editorRowInsertChar r0 at0 c = Some r \<and> size_row r = size_row r0 + 1
         \<and> render r = render_list [] (content r) @ [0]
         \<and> 9 \<notin> set (take (nat (rsize r)) (render r))
         \<and> editorRowCxToRx r (size_row r) = Some (rsize r)
         \<and> int (length (render r)) = rsize r + 1
         \<and> (\<forall>k. 0 \<le> k \<and> k \<le> size_row r \<longrightarrow>
               (\<exists>x. editorRowCxToRx r k = Some x \<and> 0 \<le> x \<and> x \<le> rsize r))))
   \<and> (state_ok E \<and> 0 \<le> len \<and> len \<le> int (length s) \<longrightarrow>
      (\<exists>E' r. editorAppendRow s len E = Some E' \<and> numrows E' = numrows E + 1
         \<and> row E' = row E @ [r] \<and> rd (row E') (numrows E) = Some r
         \<and> size_row r = len \<and> content r = take (nat len) s
         \<and> render r = render_list [] (content r) @ [0]
         \<and> 9 \<notin> set (take (nat (rsize r)) (render r))
         \<and> editorRowCxToRx r (size_row r) = Some (rsize r)
         \<and> int (length (render r)) = rsize r + 1
         \<and> (\<forall>k. 0 \<le> k \<and> k \<le> size_row r \<longrightarrow>
               (\<exists>x. editorRowCxToRx r k = Some x \<and> 0 \<le> x \<and> x \<le> rsize r))))"
proof (intro conjI impI)
  assume ok: "row_ok r0"
  from editorUpdateRow_total [OF ok] obtain r where
    r: "editorUpdateRow r0 = Some r" "chars r = chars r0" "size_row r = size_row r0" by blast
  from r updated_row_render_list [OF ok r(1)] updated_row_render [OF ok r(1)]
  show "\<exists>r. editorUpdateRow r0 = Some r \<and> chars r = chars r0 \<and> size_row r = size_row r0
         \<and> render r = render_list [] (content r) @ [0]
         \<and> 9 \<notin> set (take (nat (rsize r)) (render r))
         \<and> editorRowCxToRx r (size_row r) = Some (rsize r)
         \<and> int (length (render r)) = rsize r + 1
         \<and> (\<forall>k. 0 \<le> k \<and> k \<le> size_row r \<longrightarrow>
               (\<exists>x. editorRowCxToRx r k = Some x \<and> 0 \<le> x \<and> x \<le> rsize r))"
    by (intro exI [of _ r] conjI) simp_all
next
  assume ok: "row_ok r0"
  from editorRowInsertChar_total [OF ok, of at0 c] obtain r r1 where
    r: "editorRowInsertChar r0 at0 c = Some r" "size_row r = size_row r0 + 1"
       "row_ok r1" "editorUpdateRow r1 = Some r" by blast
  from r(1,2) updated_row_render_list [OF r(3,4)] updated_row_render [OF r(3,4)]
  show "\<exists>r. editorRowInsertChar r0 at0 c = Some r \<and> size_row r = size_row r0 + 1
         \<and> render r = render_list [] (content r) @ [0]
         \<and> 9 \<notin> set (take (nat (rsize r)) (render r))
         \<and> editorRowCxToRx r (size_row r) = Some (rsize r)
         \<and> int (length (render r)) = rsize r + 1
         \<and> (\<forall>k. 0 \<le> k \<and> k \<le> size_row r \<longrightarrow>
               (\<exists>x. editorRowCxToRx r k = Some x \<and> 0 \<le> x \<and> x \<le> rsize r))"
    by (intro exI [of _ r] conjI) simp_all
next
  assume a: "state_ok E \<and> 0 \<le> len \<and> len \<le> int (length s)"
  then have so: "state_ok E" and l0: "0 \<le> len" and l1: "len \<le> int (length s)" by simp_all
  from editorAppendRow_total [OF so l0 l1] obtain E' r r1 where
    r: "editorAppendRow s len E = Some E'" "numrows E' = numrows E + 1"
       "row E' = row E @ [r]" "rd (row E') (numrows E) = Some r"
       "size_row r = len" "content r = take (nat len) s"
       "row_ok r1" "editorUpdateRow r1 = Some r" by blast
  from r(1-6) updated_row_render_list [OF r(7,8)] updated_row_render [OF r(7,8)]
  show "\<exists>E' r. editorAppendRow s len E = Some E' \<and> numrows E' = numrows E + 1
         \<and> row E' = row E @ [r] \<and> rd (row E') (numrows E) = Some r
         \<and> size_row r = len \<and> content r = take (nat len) s
         \<and> render r = render_list [] (content r) @ [0]
         \<and> 9 \<notin> set (take (nat (rsize r)) (render r))
         \<and> editorRowCxToRx r (size_row r) = Some (rsize r)
         \<and> int (length (render r)) = rsize r + 1
         \<and> (\<forall>k. 0 \<le> k \<and> k \<le> size_row r \<longrightarrow>
               (\<exists>x. editorRowCxToRx r k = Some x \<and> 0 \<le> x \<and> x \<le> rsize r))"
    by (intro exI [of _ E'] exI [of _ r] conjI) simp_all
qed

theorem rendered_column_within_render_witness:
  "row_ok row_raw \<and> row_ok row_ab
   \<and> state_ok (initEditor 24 80) \<and> (0::int) \<le> 4 \<and> 4 \<le> int (length line_abtc)
   \<and> editorUpdateRow row_raw = Some row_tab
   \<and> editorRowInsertChar row_ab 1 9 = Some row_atb
   \<and> editorAppendRow line_abtc 4 (initEditor 24 80)
       = Some (initEditor 24 80\<lparr>row := [row_abtc], numrows := 1\<rparr>)
   \<and> editorRowCxToRx row_tab (size_row row_tab) = Some (rsize row_tab)
   \<and> editorRowCxToRx row_atb (size_row row_atb) = Some (rsize row_atb)
   \<and> editorRowCxToRx row_abtc (size_row row_abtc) = Some (rsize row_abtc)
   \<and> rsize row_tab = 8 \<and> rsize row_atb = 9 \<and> rsize row_abtc = 9"
proof -
  have h1: "row_ok row_raw" by (simp add: row_ok_def row_raw_def)
  have h2: "row_ok row_ab" by (simp add: row_ok_def row_ab_def)
  have h3: "state_ok (initEditor 24 80) \<and> (0::int) \<le> 4 \<and> 4 \<le> int (length line_abtc)"
    by (simp add: state_ok_def initEditor_def line_abtc_def)
  have e1: "editorUpdateRow row_raw = Some row_tab" by code_simp
  have e2: "editorRowInsertChar row_ab 1 9 = Some row_atb" by code_simp
  have e3: "editorAppendRow line_abtc 4 (initEditor 24 80)
            = Some (initEditor 24 80\<lparr>row := [row_abtc], numrows := 1\<rparr>)" by code_simp
  from rendered_column_within_render [of row_raw 0 0 "initEditor 24 80" 4 line_abtc] h1
  obtain r where "editorUpdateRow row_raw = Some r"
    "editorRowCxToRx r (size_row r) = Some (rsize r)" by blast
  with e1 have c1: "editorRowCxToRx row_tab (size_row row_tab) = Some (rsize row_tab)" by simp
  from rendered_column_within_render [of row_ab 1 9 "initEditor 24 80" 4 line_abtc] h2
  obtain r where "editorRowInsertChar row_ab 1 9 = Some r"
    "editorRowCxToRx r (size_row r) = Some (rsize r)" by blast
  with e2 have c2: "editorRowCxToRx row_atb (size_row row_atb) = Some (rsize row_atb)" by simp
  from rendered_column_within_render [of row_ab 1 9 "initEditor 24 80" 4 line_abtc] h3
  obtain E' r where "editorAppendRow line_abtc 4 (initEditor 24 80) = Some E'"
    "row E' = row (initEditor 24 80) @ [r]"
    "editorRowCxToRx r (size_row r) = Some (rsize r)" by blast
  with e3 have c3: "editorRowCxToRx row_abtc (size_row row_abtc) = Some (rsize row_abtc)"
    by (auto simp: initEditor_def)
  have rs: "rsize row_tab = 8 \<and> rsize row_atb = 9 \<and> rsize row_abtc = 9"
    by (simp add: row_tab_def row_atb_def row_abtc_def)
  from h1 h2 h3 e1 e2 e3 c1 c2 c3 rs show ?thesis by blast
qed

section \<open>Properties of the editor operations\<close>

lemma editorAppendRow_cursor:
  "editorAppendRow s len E = Some E1 \<Longrightarrow> cx E1 = cx E \<and> cy E1 = cy E"
  by (auto simp: editorAppendRow_def Let_def split: option.splits if_splits)

lemma editorAppendRow_empty:
  assumes "state_ok E"
  shows "editorAppendRow [0] 0 E = Some (E\<lparr>row := row E @ [empty_row], numrows := numrows E + 1\<rparr>)"
proof -
  have n: "numrows E = int (length (row E))" using assms by (simp add: state_ok_def)
  have "nat (numrows E + 1) = Suc (length (row E))" using n by linarith
  then have re: "realloc uninit_row (row E) (numrows E + 1) = Some (row E @ [uninit_row])"
    using n by (simp add: realloc_def)
  have up: "editorUpdateRow \<lparr>size_row = 0, rsize = 0, chars = take (nat 0) [0] @ [0], render = []\<rparr>
            = Some empty_row"
    unfolding empty_row_def by code_simp
  have w: "wr (row E @ [uninit_row]) (numrows E) empty_row = Some (row E @ [empty_row])"
    using n by (simp add: wr_def)
  show ?thesis
    by (simp only: editorAppendRow_def Let_def re up w option.case) simp
qed

lemma editorInsertChar_cx: "editorInsertChar c E = Some E' \<Longrightarrow> cx E' = cx E + 1"
  by (auto simp: editorInsertChar_def dest: editorAppendRow_cursor split: option.splits if_splits)

lemma state_ok_row:
  assumes "state_ok E" "0 \<le> i" "i < numrows E"
  shows "\<exists>r. rd (row E) i = Some r \<and> row_ok r"
proof -
  have n: "numrows E = int (length (row E))" and a: "list_all row_ok (row E)"
    using assms(1) by (simp_all add: state_ok_def)
  have l: "nat i < length (row E)" using assms n by linarith
  then have "row_ok (row E ! nat i)" using a by (simp add: list_all_length)
  then show ?thesis using assms n by (simp add: rd_def)
qed

lemma rd_row_ok:
  assumes "state_ok E" "rd (row E) i = Some r"
  shows "row_ok r" "0 \<le> i" "i < numrows E"
proof -
  have n: "numrows E = int (length (row E))" and a: "list_all row_ok (row E)"
    using assms(1) by (simp_all add: state_ok_def)
  from assms(2) have i: "0 \<le> i" "i < int (length (row E))" "r = row E ! nat i"
    by (auto simp: rd_def split: if_splits)
  then have "nat i < length (row E)" by linarith
  then show "row_ok r" using a i(3) by (simp add: list_all_length)
  show "0 \<le> i" "i < numrows E" using i n by simp_all
qed


lemma editorInsertChar_at_end:
  assumes "state_ok E" "cy E = numrows E"
  shows "\<exists>r'. editorRowInsertChar empty_row (cx E) c = Some r' \<and> row_ok r'
           \<and> size_row r' = 1 \<and> chars r' = [word_of_int c, 0]
           \<and> editorInsertChar c E
               = Some (E\<lparr>row := row E @ [r'], numrows := numrows E + 1, cx := cx E + 1\<rparr>)"
proof -
  let ?E1 = "E\<lparr>row := row E @ [empty_row], numrows := numrows E + 1\<rparr>"
  have n: "numrows E = int (length (row E))" using assms(1) by (simp add: state_ok_def)
  have ap: "editorAppendRow [0] 0 E = Some ?E1" using assms(1) by (rule editorAppendRow_empty)
  have ok: "row_ok empty_row" by (simp add: row_ok_def empty_row_def)
  have z: "size_row empty_row = 0" by (simp add: empty_row_def)
  have "editorRowInsertChar empty_row (cx E) c = editorRowInsertChar empty_row 0 c"
  proof (cases "cx E = 0")
    case True
    then show ?thesis by simp
  next
    case False
    then have "cx E < 0 \<or> cx E > size_row empty_row" using z by linarith
    from editorRowInsertChar_clamp [OF this] z show ?thesis by simp
  qed
  with editorRowInsertChar_Some [OF ok, of 0 c] z
  obtain r' where r': "editorRowInsertChar empty_row (cx E) c = Some r'" "row_ok r'"
    "size_row r' = 1" "chars r' = word_of_int c # chars empty_row"
    by auto
  have ch: "chars r' = [word_of_int c, 0]" using r'(4) by (simp add: empty_row_def)
  have rdl: "rd (row E @ [empty_row]) (cy E) = Some empty_row"
    using assms(2) n by (simp add: rd_def)
  have wrl: "wr (row E @ [empty_row]) (cy E) r' = Some (row E @ [r'])"
    using assms(2) n by (simp add: wr_def)
  have "editorInsertChar c E
        = Some (E\<lparr>row := row E @ [r'], numrows := numrows E + 1, cx := cx E + 1\<rparr>)"
    using assms(2) ap rdl wrl r'(1) by (simp add: editorInsertChar_def)
  with r'(1,2,3) ch show ?thesis by blast
qed

lemma editorInsertChar_in_row:
  assumes "state_ok E" "cy E \<noteq> numrows E" "rd (row E) (cy E) = Some r"
  shows "\<exists>r'. row_ok r' \<and> size_row r' = size_row r + 1
           \<and> editorInsertChar c E
               = Some (E\<lparr>row := (row E)[nat (cy E) := r'], cx := cx E + 1\<rparr>)"
proof -
  have ok: "row_ok r" by (rule rd_row_ok(1) [OF assms(1,3)])
  have sz: "0 \<le> size_row r" using ok by (simp add: row_ok_def)
  define k where "k = (if cx E < 0 \<or> cx E > size_row r then size_row r else cx E)"
  have kr: "0 \<le> k" "k \<le> size_row r" using sz by (auto simp: k_def)
  have "editorRowInsertChar r (cx E) c = editorRowInsertChar r k c"
    using editorRowInsertChar_clamp [of "cx E" r c] by (auto simp: k_def)
  with editorRowInsertChar_Some [OF ok kr, of c]
  obtain r' where r': "editorRowInsertChar r (cx E) c = Some r'" "row_ok r'"
    "size_row r' = size_row r + 1" by auto
  have "wr (row E) (cy E) r' = Some ((row E)[nat (cy E) := r'])"
    using assms(3) by (auto simp: rd_def wr_def split: if_splits)
  then have "editorInsertChar c E = Some (E\<lparr>row := (row E)[nat (cy E) := r'], cx := cx E + 1\<rparr>)"
    using assms(2,3) r'(1) by (simp add: editorInsertChar_def)
  with r'(2,3) show ?thesis by blast
qed

lemma editorInsertChar_outside:
  assumes "cy E \<noteq> numrows E" "rd (row E) (cy E) = None"
  shows "editorInsertChar c E = None"
  using assms by (simp add: editorInsertChar_def)

text \<open>
  Claim C5. \<open>editorInsertChar\<close> with the cursor on the virtual row, \<open>cy = numrows\<close>,
  first appends an empty row, so that \<open>numrows\<close> grows by one, and then inserts the
  byte into that row. Whenever \<open>editorInsertChar\<close> returns, \<open>cx\<close> has advanced by
  exactly one; it returns in every well-formed state with \<open>0 \<le> cy \<le> numrows\<close>.
\<close>

theorem editorInsertChar_virtual_row:
  "(\<forall>E'. editorInsertChar c E = Some E' \<longrightarrow> cx E' = cx E + 1)
   \<and> (state_ok E \<and> 0 \<le> cy E \<and> cy E < numrows E \<longrightarrow>
        (\<exists>E'. editorInsertChar c E = Some E' \<and> numrows E' = numrows E))
   \<and> (state_ok E \<and> cy E = numrows E \<longrightarrow>
        (\<exists>E1 r0 r'. editorAppendRow [0] 0 E = Some E1 \<and> numrows E1 = numrows E + 1
            \<and> row E1 = row E @ [r0] \<and> size_row r0 = 0
            \<and> editorRowInsertChar r0 (cx E) c = Some r' \<and> content r' = [word_of_int c]
            \<and> editorInsertChar c E = Some (E1\<lparr>row := row E @ [r'], cx := cx E + 1\<rparr>)))"
proof (intro conjI allI impI)
  fix E' assume "editorInsertChar c E = Some E'"
  then show "cx E' = cx E + 1" by (rule editorInsertChar_cx)
next
  assume a: "state_ok E \<and> 0 \<le> cy E \<and> cy E < numrows E"
  then obtain r where r: "rd (row E) (cy E) = Some r"
    using state_ok_row [of E "cy E"] by blast
  have so: "state_ok E" and ne: "cy E \<noteq> numrows E" using a by simp_all
  from editorInsertChar_in_row [OF so ne r, of c] obtain r' where
    "editorInsertChar c E = Some (E\<lparr>row := (row E)[nat (cy E) := r'], cx := cx E + 1\<rparr>)"
    by blast
  then show "\<exists>E'. editorInsertChar c E = Some E' \<and> numrows E' = numrows E" by simp
next
  assume a: "state_ok E \<and> cy E = numrows E"
  then have so: "state_ok E" and eq: "cy E = numrows E" by simp_all
  let ?E1 = "E\<lparr>row := row E @ [empty_row], numrows := numrows E + 1\<rparr>"
  have ap: "editorAppendRow [0] 0 E = Some ?E1" using so by (rule editorAppendRow_empty)
  have z: "size_row empty_row = 0" by (simp add: empty_row_def)
  from editorInsertChar_at_end [OF so eq, of c] obtain r' where
    r': "editorRowInsertChar empty_row (cx E) c = Some r'" "size_row r' = 1"
      "chars r' = [word_of_int c, 0]"
      "editorInsertChar c E
       = Some (E\<lparr>row := row E @ [r'], numrows := numrows E + 1, cx := cx E + 1\<rparr>)"
    by blast
  have ct: "content r' = [word_of_int c]" using r'(2,3) by (simp add: content_def)
  have ins: "editorInsertChar c E = Some (?E1\<lparr>row := row E @ [r'], cx := cx E + 1\<rparr>)"
    using r'(4) by simp
  show "\<exists>E1 r0 r'. editorAppendRow [0] 0 E = Some E1 \<and> numrows E1 = numrows E + 1
            \<and> row E1 = row E @ [r0] \<and> size_row r0 = 0
            \<and> editorRowInsertChar r0 (cx E) c = Some r' \<and> content r' = [word_of_int c]
            \<and> editorInsertChar c E = Some (E1\<lparr>row := row E @ [r'], cx := cx E + 1\<rparr>)"
    apply (rule exI [of _ ?E1], rule exI [of _ empty_row], rule exI [of _ r'])
    using ap z r'(1) ct ins by simp
qed

theorem editorInsertChar_virtual_row_witness:
  "state_ok (initEditor 24 80) \<and> cy (initEditor 24 80) = numrows (initEditor 24 80)
   \<and> (\<exists>E'. editorInsertChar 97 (initEditor 24 80) = Some E' \<and> cx E' = 1 \<and> numrows E' = 1)"
proof -
  have h: "state_ok (initEditor 24 80) \<and> cy (initEditor 24 80) = numrows (initEditor 24 80)"
    by (simp add: state_ok_def initEditor_def)
  from editorInsertChar_virtual_row [of 97 "initEditor 24 80"] h
  obtain E1 r' where e: "numrows E1 = numrows (initEditor 24 80) + 1"
    "editorInsertChar 97 (initEditor 24 80)
     = Some (E1\<lparr>row := row (initEditor 24 80) @ [r'], cx := cx (initEditor 24 80) + 1\<rparr>)"
    by blast
  show ?thesis using h e by (simp add: initEditor_def)
qed

subsection \<open>Scrolling\<close>

lemma cx_to_rx_loop_ge: "cx_to_rx_loop r c j x = Some y \<Longrightarrow> x \<le> y"
proof (induction r c j x rule: cx_to_rx_loop.induct)
  case (1 r c j x)
  show ?case
  proof (cases "j < c")
    case False
    then show ?thesis using "1.prems" by (simp add: cx_to_rx_loop.simps [of r c j x])
  next
    case True
    then obtain ch where ch: "rd (chars r) j = Some ch"
      and rec: "cx_to_rx_loop r c (j + 1) (rx_step ch x) = Some y"
      using "1.prems" by (simp add: cx_to_rx_loop.simps [of r c j x] split: option.splits)
    from "1.IH" [OF True ch rec] rx_step_gt [of x ch] show ?thesis by linarith
  qed
qed

lemma editorRowCxToRx_nonneg: "editorRowCxToRx r c = Some x \<Longrightarrow> 0 \<le> x"
  unfolding editorRowCxToRx_def by (rule cx_to_rx_loop_ge)

lemma scroll_offsets_frame:
  "row (scroll_offsets E) = row E" "numrows (scroll_offsets E) = numrows E"
  "cx (scroll_offsets E) = cx E" "cy (scroll_offsets E) = cy E" "rx (scroll_offsets E) = rx E"
  "screenrows (scroll_offsets E) = screenrows E" "screencols (scroll_offsets E) = screencols E"
  by (simp_all add: scroll_offsets_def Let_def)

lemma scroll_offsets_rowoff:
  "rowoff (scroll_offsets E)
   = (if cy E < rowoff E then
        (if cy E \<ge> cy E + screenrows E then cy E - screenrows E + 1 else cy E)
      else if cy E \<ge> rowoff E + screenrows E then cy E - screenrows E + 1
      else rowoff E)"
  by (simp add: scroll_offsets_def Let_def)

lemma scroll_offsets_coloff:
  "coloff (scroll_offsets E)
   = (if rx E < coloff E then
        (if rx E \<ge> rx E + screencols E then rx E - screencols E + 1 else rx E)
      else if rx E \<ge> coloff E + screencols E then rx E - screencols E + 1
      else coloff E)"
  by (simp add: scroll_offsets_def Let_def)

lemma editorRowCxToRx_no_read: "c \<le> 0 \<Longrightarrow> editorRowCxToRx r c = Some 0"
  by (simp add: editorRowCxToRx_def cx_to_rx_loop.simps [of r c 0 0])

lemma editorScroll_Some:
  assumes "editorScroll E = Some E'"
  obtains x where "0 \<le> x" "cx E' = cx E" "cy E' = cy E" "rx E' = x"
    "screenrows E' = screenrows E" "screencols E' = screencols E"
    "rowoff E' = (if cy E < rowoff E then
                    (if cy E \<ge> cy E + screenrows E then cy E - screenrows E + 1 else cy E)
                  else if cy E \<ge> rowoff E + screenrows E then cy E - screenrows E + 1
                  else rowoff E)"
    "coloff E' = (if x < coloff E then
                    (if x \<ge> x + screencols E then x - screencols E + 1 else x)
                  else if x \<ge> coloff E + screencols E then x - screencols E + 1
                  else coloff E)"
    "if cy E < numrows E \<and> 0 < cx E
     then (\<exists>r. rd (row E) (cy E) = Some r \<and> editorRowCxToRx r (cx E) = Some x)
     else x = 0"
proof -
  from assms obtain x where x: "(if cy E < numrows E then
              (if 0 < cx E then
                 (case rd (row E) (cy E) of None \<Rightarrow> None | Some r \<Rightarrow> editorRowCxToRx r (cx E))
               else Some 0)
            else Some 0) = Some x"
    and e: "E' = scroll_offsets (E\<lparr>rx := x\<rparr>)"
    by (auto simp: editorScroll_def split: option.splits)
  have nn: "0 \<le> x"
    using x by (auto split: if_splits option.splits dest: editorRowCxToRx_nonneg)
  have tie: "if cy E < numrows E \<and> 0 < cx E
     then (\<exists>r. rd (row E) (cy E) = Some r \<and> editorRowCxToRx r (cx E) = Some x)
     else x = 0"
    using x by (auto split: if_splits option.splits)
  have f: "cx E' = cx E" "cy E' = cy E" "rx E' = x" "screenrows E' = screenrows E"
    "screencols E' = screencols E"
    unfolding e by (simp_all add: scroll_offsets_frame)
  have ro: "rowoff E' = (if cy E < rowoff E then
                    (if cy E \<ge> cy E + screenrows E then cy E - screenrows E + 1 else cy E)
                  else if cy E \<ge> rowoff E + screenrows E then cy E - screenrows E + 1
                  else rowoff E)"
    unfolding e scroll_offsets_rowoff by simp
  have co: "coloff E' = (if x < coloff E then
                    (if x \<ge> x + screencols E then x - screencols E + 1 else x)
                  else if x \<ge> coloff E + screencols E then x - screencols E + 1
                  else coloff E)"
    unfolding e scroll_offsets_coloff by simp
  from nn f ro co tie show ?thesis by (rule that)
qed

lemma editorScroll_frame:
  assumes "editorScroll E = Some E'"
  shows "row E' = row E" "numrows E' = numrows E" "cx E' = cx E" "cy E' = cy E"
    "screenrows E' = screenrows E"
proof -
  from assms obtain x where "E' = scroll_offsets (E\<lparr>rx := x\<rparr>)"
    by (auto simp: editorScroll_def split: option.splits)
  then show "row E' = row E" "numrows E' = numrows E" "cx E' = cx E" "cy E' = cy E"
    "screenrows E' = screenrows E"
    by (simp_all add: scroll_offsets_frame)
qed





section \<open>Decoding of escape sequences\<close>

lemma read_escape_table:
  "\<exists>rest. read_escape inp = Key (case spec_escape_table inp of Some k \<Rightarrow> k | None \<Rightarrow> 0x1b) rest"
proof (cases inp)
  case Nil
  then show ?thesis by (simp add: read_escape_def spec_escape_table_def)
next
  case (Cons a inp1)
  note c1 = Cons
  show ?thesis
  proof (cases a)
    case NoData
    then show ?thesis using c1 by (simp add: read_escape_def spec_escape_table_def)
  next
    case (Error e)
    then show ?thesis using c1 by (simp add: read_escape_def spec_escape_table_def)
  next
    case (Byte s0)
    note b0 = Byte
    show ?thesis
    proof (cases inp1)
      case Nil
      then show ?thesis using c1 b0 by (simp add: read_escape_def spec_escape_table_def)
    next
      case (Cons b inp2)
      note c2 = Cons
      show ?thesis
      proof (cases b)
        case NoData
        then show ?thesis using c1 b0 c2 by (simp add: read_escape_def spec_escape_table_def)
      next
        case (Error e)
        then show ?thesis using c1 b0 c2 by (simp add: read_escape_def spec_escape_table_def)
      next
        case (Byte s1)
        note b1 = Byte
        have r2: "\<exists>s2 inp3. read1 inp2 = (s2, inp3)
                   \<and> (case inp2 of Byte s # _ \<Rightarrow> s2 = Some s | _ \<Rightarrow> s2 = None)"
          by (cases inp2 rule: read1.cases) simp_all
        then obtain s2 inp3 where s2: "read1 inp2 = (s2, inp3)"
          "case inp2 of Byte s # _ \<Rightarrow> s2 = Some s | _ \<Rightarrow> s2 = None" by blast
        show ?thesis
          using c1 b0 c2 b1 s2
          by (cases inp2 rule: read1.cases)
             (auto simp: read_escape_def spec_escape_table_def)
      qed
    qed
  qed
qed

text \<open>
  Claim C6. \<open>editorReadKey\<close> decodes \<open>ESC [ A\<close> to ArrowUp, \<open>ESC [ 3 ~\<close> to Delete,
  \<open>ESC [ H\<close> to Home, and \<open>ESC [ d ~\<close> to Home for the digits 1 and 7, to End for 4
  and 8, to PageUp for 5 and to PageDown for 6. A lone \<open>ESC\<close>, with no byte after it
  within the timeout, is the key Escape. After \<open>ESC\<close> the decoder always returns a
  key, never an error: the key of the table when a pattern matches, Escape otherwise.
\<close>

theorem editorReadKey_escape_sequences:
  "editorReadKey (Byte 0x1b # Byte 0x5b # Byte 0x41 # rest) = Key ARROW_UP rest
   \<and> editorReadKey (Byte 0x1b # Byte 0x5b # Byte 0x33 # Byte 0x7e # rest) = Key DEL_KEY rest
   \<and> editorReadKey (Byte 0x1b # Byte 0x5b # Byte 0x48 # rest) = Key HOME_KEY rest
   \<and> editorReadKey (Byte 0x1b # Byte 0x5b # Byte 0x31 # Byte 0x7e # rest) = Key HOME_KEY rest
   \<and> editorReadKey (Byte 0x1b # Byte 0x5b # Byte 0x37 # Byte 0x7e # rest) = Key HOME_KEY rest
   \<and> editorReadKey (Byte 0x1b # Byte 0x5b # Byte 0x34 # Byte 0x7e # rest) = Key END_KEY rest
   \<and> editorReadKey (Byte 0x1b # Byte 0x5b # Byte 0x38 # Byte 0x7e # rest) = Key END_KEY rest
   \<and> editorReadKey (Byte 0x1b # Byte 0x5b # Byte 0x35 # Byte 0x7e # rest) = Key PAGE_UP rest
   \<and> editorReadKey (Byte 0x1b # Byte 0x5b # Byte 0x36 # Byte 0x7e # rest) = Key PAGE_DOWN rest
   \<and> editorReadKey [Byte 0x1b] = Key 0x1b []
   \<and> editorReadKey (Byte 0x1b # NoData # rest) = Key 0x1b rest
   \<and> (\<exists>rest'. editorReadKey (Byte 0x1b # inp)
                 = Key (case spec_escape_table inp of Some k \<Rightarrow> k | None \<Rightarrow> 0x1b) rest')"
proof -
  have "\<exists>rest'. editorReadKey (Byte 0x1b # inp)
                 = Key (case spec_escape_table inp of Some k \<Rightarrow> k | None \<Rightarrow> 0x1b) rest'"
    using read_escape_table [of inp] by simp
  then show ?thesis by (simp add: read_escape_def)
qed


theorem editorReadKey_escape_sequences_witness:
  "\<exists>rest'. editorReadKey [Byte 0x1b, Byte 0x5b, Byte 0x32, Byte 0x7e] = Key 0x1b rest'"
  using editorReadKey_escape_sequences [of "[]" "[Byte 0x5b, Byte 0x32, Byte 0x7e]"]
  by (simp add: spec_escape_table_def)

section \<open>The cursor and the ArrowDown key\<close>

lemma clamp_cx_bound:
  assumes "clamp_cx E1 = Some E'"
  shows "cy E' = cy E1" "row E' = row E1" "numrows E' = numrows E1"
    "rowoff E' = rowoff E1" "screenrows E' = screenrows E1"
    "if cy E' \<ge> numrows E' then cx E' \<le> 0
     else (\<exists>r. rd (row E') (cy E') = Some r \<and> cx E' \<le> size_row r)"
  using assms by (auto simp: clamp_cx_def split: option.splits if_splits)

lemma editorMoveCursor_reclamps_cx:
  assumes "editorMoveCursor key E = Some E'"
  shows "if cy E' \<ge> numrows E' then cx E' \<le> 0
         else (\<exists>r. rd (row E') (cy E') = Some r \<and> cx E' \<le> size_row r)"
proof -
  from assms obtain E1 where "clamp_cx E1 = Some E'"
    by (auto simp: editorMoveCursor_def split: option.splits)
  then show ?thesis by (rule clamp_cx_bound(6))
qed

text \<open>
  What the keys keep. In every state that a sequence of keys reaches from the initial
  state, on a terminal of at least three lines, \<open>E.row\<close> is an array of \<open>numrows\<close>
  well-formed rows, \<open>cx\<close> and \<open>cy\<close> are not negative, and \<open>cx\<close> is inside the row at
  \<open>cy\<close>. The bound \<open>cy \<le> numrows\<close> is not among them.
\<close>

lemma move_switch_frame:
  assumes "move_switch key E = Some E1"
  shows "row E1 = row E" "numrows E1 = numrows E" "rowoff E1 = rowoff E"
    "screenrows E1 = screenrows E"
  using assms
  by (auto simp: move_switch_def Let_def split: option.splits if_splits)

lemma move_switch_nonneg:
  assumes "move_switch key E = Some E1" "state_ok E" "0 \<le> cx E" "0 \<le> cy E"
  shows "0 \<le> cx E1" "0 \<le> cy E1"
proof -
  have lsz: "0 \<le> size_row r" if "rd (row E) i = Some r" for i r
    using rd_row_ok(1) [OF assms(2) that] by (simp add: row_ok_def)
  show "0 \<le> cx E1" "0 \<le> cy E1"
    using assms(1,3,4) lsz
    by (auto simp: move_switch_def Let_def split: option.splits if_splits)
qed

lemma clamp_cx_nonneg:
  assumes "clamp_cx E1 = Some E'" "state_ok E1" "0 \<le> cx E1"
  shows "0 \<le> cx E'"
proof -
  have lsz: "0 \<le> size_row r" if "rd (row E1) i = Some r" for i r
    using rd_row_ok(1) [OF assms(2) that] by (simp add: row_ok_def)
  show ?thesis
    using assms(1,3) lsz by (auto simp: clamp_cx_def split: option.splits if_splits)
qed

lemma editorMoveCursor_frame:
  assumes "editorMoveCursor key E = Some E'"
  shows "row E' = row E \<and> numrows E' = numrows E \<and> rowoff E' = rowoff E
         \<and> screenrows E' = screenrows E"
proof -
  from assms obtain E1 where m: "move_switch key E = Some E1" and c: "clamp_cx E1 = Some E'"
    by (auto simp: editorMoveCursor_def split: option.splits)
  from move_switch_frame [OF m] clamp_cx_bound(2-5) [OF c] show ?thesis by simp
qed

lemma editorMoveCursor_nonneg:
  assumes "editorMoveCursor key E = Some E'" "state_ok E" "0 \<le> cx E" "0 \<le> cy E"
  shows "0 \<le> cx E' \<and> 0 \<le> cy E'"
proof -
  from assms(1) obtain E1 where m: "move_switch key E = Some E1" and c: "clamp_cx E1 = Some E'"
    by (auto simp: editorMoveCursor_def split: option.splits)
  note n1 = move_switch_nonneg [OF m assms(2-4)]
  have "state_ok E1" using assms(2) move_switch_frame(1,2) [OF m] by (simp add: state_ok_def)
  from clamp_cx_nonneg [OF c this n1(1)] clamp_cx_bound(1) [OF c] n1(2) show ?thesis by simp
qed

lemma editorMoveCursor_inv:
  assumes "cursor_pre E" "editorMoveCursor key E = Some E'"
  shows "cursor_pre E' \<and> cursor_in_row E'"
proof -
  note f = editorMoveCursor_frame [OF assms(2)]
  have so: "state_ok E'" using assms(1) f by (simp add: cursor_pre_def state_ok_def)
  have nn: "0 \<le> cx E' \<and> 0 \<le> cy E'"
    using editorMoveCursor_nonneg [OF assms(2)] assms(1) by (simp add: cursor_pre_def)
  have pre: "cursor_pre E'" using so nn f assms(1) by (simp add: cursor_pre_def)
  have "cursor_in_row E'"
    using editorMoveCursor_reclamps_cx [OF assms(2)] nn
    by (auto simp: cursor_in_row_def split: if_splits)
  with pre show ?thesis by simp
qed

lemma page_loop_inv:
  "cursor_pre E \<Longrightarrow> page_loop n key E = Some E' \<Longrightarrow>
   cursor_pre E' \<and> (1 \<le> n \<longrightarrow> cursor_in_row E')"
proof (induction n key E rule: page_loop.induct)
  case (1 n key E)
  show ?case
  proof (cases "n = 0")
    case True
    then show ?thesis using "1.prems" by (simp add: page_loop.simps [of 0 key E])
  next
    case False
    then have pos: "\<not> n < 0"
      using "1.prems"(2) by (auto simp: page_loop.simps [of n key E])
    from False pos "1.prems"(2) obtain E1 where
      m: "editorMoveCursor key E = Some E1" and rec: "page_loop (n - 1) key E1 = Some E'"
      by (auto simp: page_loop.simps [of n key E] split: option.splits)
    from editorMoveCursor_inv [OF "1.prems"(1) m] have i1: "cursor_pre E1" "cursor_in_row E1"
      by simp_all
    from "1.IH" [OF False pos m i1(1) rec]
    have ih: "cursor_pre E'" "1 \<le> n - 1 \<longrightarrow> cursor_in_row E'" by simp_all
    show ?thesis
    proof (cases "n = 1")
      case True
      then have "E' = E1" using rec by (simp add: page_loop.simps [of 0 key E1])
      then show ?thesis using i1 by simp
    next
      case False
      then have "1 \<le> n - 1" using \<open>n \<noteq> 0\<close> pos by linarith
      then show ?thesis using ih by simp
    qed
  qed
qed

lemma state_ok_update:
  assumes "state_ok E" "row_ok r'"
  shows "state_ok (E\<lparr>row := (row E)[i := r'], cx := x\<rparr>)"
proof -
  have "list_all row_ok ((row E)[i := r'])"
    using assms set_update_subset_insert [of "row E" i r']
    by (auto simp: state_ok_def list_all_iff)
  then show ?thesis using assms(1) by (simp add: state_ok_def)
qed

lemma state_ok_append:
  assumes "state_ok E" "row_ok r'"
  shows "state_ok (E\<lparr>row := row E @ [r'], numrows := numrows E + 1, cx := x\<rparr>)"
  using assms by (simp add: state_ok_def)

lemma editorInsertChar_inv:
  assumes "cursor_pre E" "cursor_in_row E" "editorInsertChar c E = Some E'"
  shows "cursor_pre E' \<and> cursor_in_row E'"
proof -
  have so: "state_ok E" and nn: "0 \<le> cx E" "0 \<le> cy E" "0 \<le> rowoff E" "1 \<le> screenrows E"
    using assms(1) by (simp_all add: cursor_pre_def)
  have n: "numrows E = int (length (row E))" using so by (simp add: state_ok_def)
  show ?thesis
  proof (cases "cy E = numrows E")
    case True
    from editorInsertChar_at_end [OF so True, of c] assms(3) obtain r' where
      r': "row_ok r'" "size_row r' = 1"
      "E' = E\<lparr>row := row E @ [r'], numrows := numrows E + 1, cx := cx E + 1\<rparr>"
      by auto
    have c0: "cx E = 0" using assms(2) True by (simp add: cursor_in_row_def)
    have "state_ok E'" unfolding r'(3) by (rule state_ok_append [OF so r'(1)])
    then have pre: "cursor_pre E'" using nn r'(3) by (simp add: cursor_pre_def)
    have "rd (row E @ [r']) (cy E) = Some r'" using True n by (simp add: rd_def)
    then have "cursor_in_row E'" using True c0 r'(2,3) by (simp add: cursor_in_row_def)
    with pre show ?thesis by simp
  next
    case False
    show ?thesis
    proof (cases "rd (row E) (cy E)")
      case None
      from editorInsertChar_outside [OF False None, of c] assms(3) show ?thesis by simp
    next
      case (Some r)
      from editorInsertChar_in_row [OF so False Some, of c] assms(3) obtain r' where
        r': "row_ok r'" "size_row r' = size_row r + 1"
        "E' = E\<lparr>row := (row E)[nat (cy E) := r'], cx := cx E + 1\<rparr>"
        by auto
      have lt: "cy E < numrows E" by (rule rd_row_ok(3) [OF so Some])
      have "state_ok E'" unfolding r'(3) by (rule state_ok_update [OF so r'(1)])
      then have pre: "cursor_pre E'" using nn r'(3) by (simp add: cursor_pre_def)
      have cb: "cx E \<le> size_row r" using assms(2) lt Some by (simp add: cursor_in_row_def)
      have "rd ((row E)[nat (cy E) := r']) (cy E) = Some r'"
        using Some by (auto simp: rd_def split: if_splits)
      then have "cursor_in_row E'" using lt cb r'(2,3) by (simp add: cursor_in_row_def)
      with pre show ?thesis by simp
    qed
  qed
qed

lemma editorScroll_inv:
  assumes "editorScroll E = Some E'" "cursor_pre E" "cursor_in_row E"
  shows "cursor_pre E' \<and> cursor_in_row E'"
proof -
  note f = editorScroll_frame [OF assms(1)]
  from assms(1) obtain x where
    "rowoff E' = (if cy E < rowoff E then
                    (if cy E \<ge> cy E + screenrows E then cy E - screenrows E + 1 else cy E)
                  else if cy E \<ge> rowoff E + screenrows E then cy E - screenrows E + 1
                  else rowoff E)"
    by (rule editorScroll_Some)
  then have "0 \<le> rowoff E'" using assms(2) by (simp add: cursor_pre_def split: if_splits)
  then have "cursor_pre E'" using assms(2) f by (simp add: cursor_pre_def state_ok_def)
  moreover have "cursor_in_row E' = cursor_in_row E" by (simp only: cursor_in_row_def f)
  then have "cursor_in_row E'" using assms(3) by simp
  ultimately show ?thesis by simp
qed

lemma cursor_in_row_home:
  assumes "state_ok E" "0 \<le> cy E"
  shows "cursor_in_row (E\<lparr>cx := 0\<rparr>)"
proof (cases "cy E < numrows E")
  case True
  from state_ok_row [OF assms True] obtain r where "rd (row E) (cy E) = Some r" "row_ok r"
    by blast
  then show ?thesis using True by (simp add: cursor_in_row_def row_ok_def)
next
  case False
  then show ?thesis by (simp add: cursor_in_row_def)
qed

lemma continue_Continue: "continue r = Continue E' \<longleftrightarrow> r = Some E'"
  by (cases r) (simp_all add: continue_def)

lemma process_key_inv:
  assumes "cursor_pre E" "cursor_in_row E" "process_key c E = Continue E'"
  shows "cursor_pre E' \<and> cursor_in_row E'"
proof -
  have so: "state_ok E" and nn: "0 \<le> cx E" "0 \<le> cy E" "0 \<le> rowoff E" "1 \<le> screenrows E"
    using assms(1) by (simp_all add: cursor_pre_def)
  have n0: "0 \<le> numrows E" using so by (simp add: state_ok_def)
  consider (quit) "c = CTRL_KEY 113"
    | (home) "c \<noteq> CTRL_KEY 113" "c = HOME_KEY"
    | (end_key) "c \<noteq> CTRL_KEY 113" "c \<noteq> HOME_KEY" "c = END_KEY"
    | (page) "c \<noteq> CTRL_KEY 113" "c \<noteq> HOME_KEY" "c \<noteq> END_KEY" "c = PAGE_DOWN \<or> c = PAGE_UP"
    | (arrow) "c \<noteq> CTRL_KEY 113" "c \<noteq> HOME_KEY" "c \<noteq> END_KEY" "\<not> (c = PAGE_DOWN \<or> c = PAGE_UP)"
        "c = ARROW_UP \<or> c = ARROW_DOWN \<or> c = ARROW_LEFT \<or> c = ARROW_RIGHT"
    | (other) "c \<noteq> CTRL_KEY 113" "c \<noteq> HOME_KEY" "c \<noteq> END_KEY" "\<not> (c = PAGE_DOWN \<or> c = PAGE_UP)"
        "\<not> (c = ARROW_UP \<or> c = ARROW_DOWN \<or> c = ARROW_LEFT \<or> c = ARROW_RIGHT)"
    by blast
  then show ?thesis
  proof cases
    case quit
    then show ?thesis using assms(3) by (simp add: process_key_def)
  next
    case home
    then have e: "E' = E\<lparr>cx := 0\<rparr>" using assms(3) by (simp add: process_key_def)
    have "cursor_pre E'" using assms(1) e by (simp add: cursor_pre_def state_ok_def)
    moreover have "cursor_in_row E'" unfolding e by (rule cursor_in_row_home [OF so nn(2)])
    ultimately show ?thesis by simp
  next
    case end_key
    show ?thesis
    proof (cases "cy E < numrows E")
      case False
      then have "E' = E" using end_key assms(3) by (simp add: process_key_def)
      then show ?thesis using assms by simp
    next
      case True
      from state_ok_row [OF so nn(2) True] obtain r where r: "rd (row E) (cy E) = Some r" "row_ok r"
        by blast
      then have e: "E' = E\<lparr>cx := size_row r\<rparr>"
        using end_key True assms(3) by (simp add: process_key_def)
      have "cursor_pre E'" using assms(1) e r(2) by (simp add: cursor_pre_def state_ok_def row_ok_def)
      moreover have "cursor_in_row E'" using e True r(1) by (simp add: cursor_in_row_def)
      ultimately show ?thesis by simp
    qed
  next
    case page
    define E1 where "E1 = (if c = PAGE_UP then E\<lparr>cy := rowoff E\<rparr>
                   else if c = PAGE_DOWN then
                     (let E0 = E\<lparr>cy := rowoff E + screenrows E - 1\<rparr>
                      in if cy E0 > numrows E0 then E0\<lparr>cy := numrows E0\<rparr> else E0)
                   else E)"
    have p1: "cursor_pre E1"
      using assms(1) n0 by (auto simp: E1_def cursor_pre_def state_ok_def Let_def)
    have s1: "screenrows E1 = screenrows E" by (simp add: E1_def Let_def)
    have "process_key c E
          = continue (page_loop (screenrows E1) (if c = PAGE_UP then ARROW_UP else ARROW_DOWN) E1)"
      using page by (simp add: process_key_def E1_def Let_def)
    with assms(3)
    have "continue (page_loop (screenrows E1) (if c = PAGE_UP then ARROW_UP else ARROW_DOWN) E1)
          = Continue E'"
      by simp
    then have "page_loop (screenrows E1) (if c = PAGE_UP then ARROW_UP else ARROW_DOWN) E1 = Some E'"
      by (simp only: continue_Continue)
    from page_loop_inv [OF p1 this] s1 nn(4) show ?thesis by simp
  next
    case arrow
    then have "continue (editorMoveCursor c E) = Continue E'"
      using assms(3) by (simp add: process_key_def)
    then have "editorMoveCursor c E = Some E'" by (simp only: continue_Continue)
    from editorMoveCursor_inv [OF assms(1) this] show ?thesis .
  next
    case other
    then have "continue (editorInsertChar c E) = Continue E'"
      using assms(3) by (simp add: process_key_def)
    then have "editorInsertChar c E = Some E'" by (simp only: continue_Continue)
    from editorInsertChar_inv [OF assms(1,2) this] show ?thesis .
  qed
qed

lemma run_keys_inv:
  "cursor_pre E \<Longrightarrow> cursor_in_row E \<Longrightarrow> run_keys cs E = Continue E' \<Longrightarrow>
   cursor_pre E' \<and> cursor_in_row E'"
proof (induction cs arbitrary: E)
  case Nil
  then show ?case by simp
next
  case (Cons c cs)
  from Cons.prems(3) obtain E1 where m: "main_step c E = Continue E1"
    and r: "run_keys cs E1 = Continue E'"
    by (auto split: outcome.splits)
  from m obtain Es where s: "editorScroll E = Some Es" and p: "process_key c Es = Continue E1"
    by (auto simp: main_step_def split: option.splits)
  from editorScroll_inv [OF s Cons.prems(1,2)] have "cursor_pre Es" "cursor_in_row Es" by simp_all
  from process_key_inv [OF this p] have "cursor_pre E1" "cursor_in_row E1" by simp_all
  from Cons.IH [OF this r] show ?case .
qed

lemma reachable_cursor:
  assumes "3 \<le> rows" "run_keys cs (initEditor rows cols) = Continue E"
  shows "state_ok E \<and> 0 \<le> cx E \<and> 0 \<le> cy E \<and> cursor_in_row E"
proof -
  have "cursor_pre (initEditor rows cols)"
    using assms(1) by (simp add: cursor_pre_def state_ok_def initEditor_def)
  moreover have "cursor_in_row (initEditor rows cols)"
    by (simp add: cursor_in_row_def initEditor_def)
  ultimately have "cursor_pre E \<and> cursor_in_row E" using assms(2) by (rule run_keys_inv)
  then show ?thesis by (simp add: cursor_pre_def)
qed

text \<open>
  Claim C2. ArrowDown should move \<open>cy\<close> down by one when \<open>cy < numrows\<close> and leave it
  when \<open>cy = numrows\<close>. \<open>editorMoveCursor\<close> tests \<open>cx < numrows\<close> instead: in the
  state after the key \<open>a\<close>, with \<open>cx = 1\<close>, \<open>cy = 0\<close> and one row, ArrowDown leaves
  \<open>cy\<close> at 0; in the state after \<open>a\<close>, Home, ArrowDown, with \<open>cx = 0\<close> and
  \<open>cy = numrows = 1\<close>, ArrowDown moves \<open>cy\<close> to 2.
\<close>

theorem arrow_down_tests_cx_not_cy:
  "run_keys [97] (initEditor 24 80) = Continue st_a
   \<and> cy st_a = 0 \<and> numrows st_a = 1
   \<and> editorMoveCursor ARROW_DOWN st_a = Some st_a
   \<and> run_keys [97, HOME_KEY, ARROW_DOWN] (initEditor 24 80) = Continue st_end
   \<and> cy st_end = 1 \<and> numrows st_end = 1
   \<and> editorMoveCursor ARROW_DOWN st_end = Some st_below
   \<and> cy st_below = 2 \<and> numrows st_below = 1"
  by code_simp

text \<open>
  Claim C1. The cursor should stay inside the document, \<open>0 \<le> cy \<le> numrows\<close> and
  \<open>0 \<le> cx \<le>\<close> the size of the row at \<open>cy\<close>, after every sequence of keys. From the
  initial state of an empty document the keys \<open>a\<close>, Home, ArrowDown, ArrowDown lead to
  \<open>cy = 2\<close> with \<open>numrows = 1\<close>, and a byte typed there is stored through
  \<open>E.row[2]\<close>, outside the array of rows.
\<close>

theorem cursor_leaves_document:
  "editorReadKey [Byte 0x61] = Key 97 []
   \<and> editorReadKey [Byte 0x1b, Byte 0x5b, Byte 0x48] = Key HOME_KEY []
   \<and> editorReadKey [Byte 0x1b, Byte 0x5b, Byte 0x42] = Key ARROW_DOWN []
   \<and> run_keys [97, HOME_KEY, ARROW_DOWN, ARROW_DOWN] (initEditor 24 80) = Continue st_below
   \<and> cy st_below = 2 \<and> numrows st_below = 1
   \<and> run_keys [97, HOME_KEY, ARROW_DOWN, ARROW_DOWN, 98] (initEditor 24 80) = Fault"
  by code_simp

end
